theory Spec2Isabelle
  imports Main "HOL-Library.AList"
begin

section \<open>JavaScript values and the object heap\<close>

text \<open>
  The module \<open>withErrors.ts\<close> consists of the predicate \<open>isClass\<close> and the function
  \<open>withErrors\<close>. Both work on JavaScript objects through property reads, property writes,
  \<open>typeof\<close>, \<open>for-in\<close>, \<open>Object.assign\<close> and two method calls. This section models the part of
  the language they touch: ordinary objects with data properties and accessor properties,
  prototype links and function objects, kept in a heap that is passed explicitly. Symbols,
  proxies and other exotic objects are not modelled. The module is an ES module, hence
  strict-mode code: a rejected property write raises \<open>TypeError\<close>.
\<close>

type_synonym addr = nat

datatype val = Undefined | Null | Bool bool | Num int | Str string | Ref addr

datatype error = TypeError | UserException

text \<open>
  What a call of a function does. The built-in functions that a property read, a property
  write or a method call of the module can reach on an unmodified prototype are modelled
  one by one: \<open>Function.prototype.toString\<close>, the getter and the setter of
  \<open>Object.prototype.__proto__\<close>, and \<open>%ThrowTypeError%\<close>, which is the getter and the setter
  of \<open>caller\<close> and \<open>arguments\<close> on \<open>Function.prototype\<close>. All other code is code of the
  program, known by a number; the realm (below) says what a call of it returns or that it
  throws, as a function of the heap, of the receiver and of the arguments. Such code can
  read every object, so its answer can change when a slot is attached; writes of its own
  to the heap are not modelled. Numbers are integers here; nothing below computes with
  them.
\<close>

datatype outcome = Return val | Throw

datatype behaviour = FunctionPrototypeToString | ProtoGetter | ProtoSetter | ThrowTypeError
  | is_program_code: OtherCode nat

datatype fkind = ClassDefinition | FunctionDefinition | ArrowFunction | MethodDefinition
  | BuiltinFunction

text \<open>
  A function object records what kind of definition created it, its source text (what the
  built-in \<open>Function.prototype.toString\<close> returns for it) and what a call of it does.
\<close>

record fn =
  kind :: fkind
  source :: string
  behaviour :: behaviour

text \<open>
  A property is a data property (value, writable, enumerable) or an accessor property
  (getter, setter, enumerable). A getter or setter is kept as what a call of it does;
  \<open>None\<close> is an absent one. The selectors \<open>pval\<close> and \<open>writable\<close> read a data property; on an
  accessor property, which has neither attribute, they give \<open>undefined\<close> and \<open>False\<close>.
\<close>

datatype property =
    is_data: Data (pval: val) (writable: bool) (enumerable: bool)
  | Accessor (getter: "behaviour option") (setter: "behaviour option") (enumerable: bool)
where
  "pval (Accessor g s e) = Undefined"
| "writable (Accessor g s e) = False"

text \<open>
  An object: its own properties in the order of \<open>[[OwnPropertyKeys]]\<close> (keys distinct), its
  \<open>[[Prototype]]\<close>, whether it is extensible, and its function part when it is callable.
\<close>

record obj =
  props :: "(string \<times> property) list"
  proto :: "addr option"
  extensible :: bool
  call :: "fn option"

type_synonym heap = "obj list"

text \<open>
  The prototypes that property reads on primitive values go to, and the code of the
  program's functions.
\<close>

record realm =
  BooleanPrototype :: addr
  NumberPrototype :: addr
  StringPrototype :: addr
  code :: "nat \<Rightarrow> heap \<Rightarrow> val \<Rightarrow> val list \<Rightarrow> outcome"

definition lookup_obj :: "heap \<Rightarrow> addr \<Rightarrow> obj option" where
  "lookup_obj h a = (if a < length h then Some (h ! a) else None)"

text \<open>
  The prototype chain from an object, as addresses. JavaScript keeps chains acyclic, so a
  chain visits at most \<open>length h\<close> objects; that bound is the fuel of the traversal. An
  address outside the heap, which a real heap does not contain, ends the chain; it reads as
  an object without properties and rejects every write.
\<close>

fun chain :: "nat \<Rightarrow> heap \<Rightarrow> addr option \<Rightarrow> addr list" where
  "chain 0 h a = []"
| "chain (Suc n) h None = []"
| "chain (Suc n) h (Some a) =
     (case lookup_obj h a of None \<Rightarrow> [] | Some ob \<Rightarrow> a # chain n h (proto ob))"

definition chain_objs :: "heap \<Rightarrow> addr option \<Rightarrow> obj list" where
  "chain_objs h a = map (\<lambda>b. h ! b) (chain (length h) h a)"

text \<open>The first property named \<open>k\<close> along a list of objects (own property first).\<close>

fun find_prop :: "obj list \<Rightarrow> string \<Rightarrow> property option" where
  "find_prop [] k = None"
| "find_prop (ob # obs) k =
     (case map_of (props ob) k of Some p \<Rightarrow> Some p | None \<Rightarrow> find_prop obs k)"

text \<open>
  The keys a \<open>for-in\<close> loop visits: the enumerable string keys of the object and of its
  prototype chain, a key being visited once and shadowed by any property of the same name
  on an object nearer in the chain. The language leaves open whether a property added
  during the enumeration is visited; as engines do, the model takes the keys when the loop
  is entered.
\<close>

fun enum_keys :: "obj list \<Rightarrow> string list \<Rightarrow> string list" where
  "enum_keys [] seen = []"
| "enum_keys (ob # obs) seen =
     map fst (filter (\<lambda>kp. enumerable (snd kp) \<and> fst kp \<notin> set seen) (props ob))
       @ enum_keys obs (seen @ map fst (props ob))"

subsection \<open>Primitive values as objects\<close>

definition digit :: "nat \<Rightarrow> char" where
  "digit n = ''0123456789'' ! n"

fun decimal :: "nat \<Rightarrow> string" where
  "decimal n = (if n < 10 then [digit n] else decimal (n div 10) @ [digit (n mod 10)])"

definition string_props :: "string \<Rightarrow> (string \<times> property) list" where
  "string_props s =
     map (\<lambda>i. (decimal i, Data (Str [s ! i]) False True)) [0..<length s]
     @ [(''length'', Data (Num (int (length s))) False False)]"

text \<open>\<open>ToObject\<close> of a boolean, number or string: the wrapper object.\<close>

definition wrapper :: "realm \<Rightarrow> val \<Rightarrow> obj" where
  "wrapper rl v =
     \<lparr>props = (case v of Str s \<Rightarrow> string_props s | _ \<Rightarrow> []),
      proto = (case v of Bool b \<Rightarrow> Some (BooleanPrototype rl)
                 | Num n \<Rightarrow> Some (NumberPrototype rl)
                 | Str s \<Rightarrow> Some (StringPrototype rl)
                 | _ \<Rightarrow> None),
      extensible = True, call = None\<rparr>"

text \<open>
  The objects a property read on a value goes through: none for \<open>undefined\<close> and \<open>null\<close>,
  the object and its chain for a reference, the wrapper and its chain for a primitive.
\<close>

definition objs_of :: "realm \<Rightarrow> heap \<Rightarrow> val \<Rightarrow> obj list" where
  "objs_of rl h v =
     (case v of
        Undefined \<Rightarrow> []
      | Null \<Rightarrow> []
      | Ref a \<Rightarrow> chain_objs h (Some a)
      | _ \<Rightarrow> wrapper rl v # chain_objs h (proto (wrapper rl v)))"

text \<open>The object that a value is, or is wrapped in; none for \<open>undefined\<close> and \<open>null\<close>.\<close>

definition own_obj :: "realm \<Rightarrow> heap \<Rightarrow> val \<Rightarrow> obj option" where
  "own_obj rl h v =
     (case v of
        Undefined \<Rightarrow> None
      | Null \<Rightarrow> None
      | Ref a \<Rightarrow> lookup_obj h a
      | _ \<Rightarrow> Some (wrapper rl v))"

subsection \<open>Calls\<close>

definition ebind :: "error + 'a \<Rightarrow> ('a \<Rightarrow> error + 'b) \<Rightarrow> error + 'b" where
  "ebind m f = (case m of Inl e \<Rightarrow> Inl e | Inr x \<Rightarrow> f x)"

definition fn_of :: "heap \<Rightarrow> val \<Rightarrow> fn option" where
  "fn_of h v =
     (case v of
        Ref a \<Rightarrow> (case lookup_obj h a of None \<Rightarrow> None | Some ob \<Rightarrow> call ob)
      | _ \<Rightarrow> None)"

definition typeof :: "heap \<Rightarrow> val \<Rightarrow> string" where
  "typeof h v =
     (case v of
        Undefined \<Rightarrow> ''undefined''
      | Null \<Rightarrow> ''object''
      | Bool b \<Rightarrow> ''boolean''
      | Num n \<Rightarrow> ''number''
      | Str s \<Rightarrow> ''string''
      | Ref a \<Rightarrow> (if fn_of h v = None then ''object'' else ''function''))"

definition first_arg :: "val list \<Rightarrow> val" where
  "first_arg args = (case args of [] \<Rightarrow> Undefined | v # vs \<Rightarrow> v)"

text \<open>
  \<open>[[SetPrototypeOf]]\<close> of an ordinary object: nothing to do when the prototype is the one
  it has; otherwise the object must be extensible and must not be on the chain of the new
  prototype.
\<close>

definition set_prototype :: "heap \<Rightarrow> addr \<Rightarrow> addr option \<Rightarrow> error + heap" where
  "set_prototype h a q =
     (case lookup_obj h a of
        None \<Rightarrow> Inl TypeError
      | Some ob \<Rightarrow>
          if proto ob = q then Inr h
          else if extensible ob \<and> a \<notin> set (chain (length h) h q)
          then Inr (h[a := ob\<lparr>proto := q\<rparr>])
          else Inl TypeError)"

text \<open>
  Running a behaviour with a receiver and arguments gives the heap afterwards and the
  value returned, or the exception.
  \<^item> \<open>Function.prototype.toString\<close> returns the source text of a function receiver and throws
    on any other receiver.
  \<^item> The getter of \<open>__proto__\<close> returns the prototype of the receiver (of its wrapper when
    it is a primitive) and throws on \<open>undefined\<close> and \<open>null\<close>.
  \<^item> The setter of \<open>__proto__\<close> throws on \<open>undefined\<close> and \<open>null\<close>, does nothing when the
    argument is neither an object nor \<open>null\<close> or when the receiver is a primitive, and
    otherwise sets the prototype of the receiver, throwing when that is refused.
  \<^item> \<open>%ThrowTypeError%\<close> throws.
\<close>

definition run :: "realm \<Rightarrow> heap \<Rightarrow> behaviour \<Rightarrow> val \<Rightarrow> val list \<Rightarrow> error + heap \<times> val" where
  "run rl h b this args =
     (case b of
        FunctionPrototypeToString \<Rightarrow>
          (case fn_of h this of None \<Rightarrow> Inl TypeError | Some me \<Rightarrow> Inr (h, Str (source me)))
      | ProtoGetter \<Rightarrow>
          (case own_obj rl h this of
             None \<Rightarrow> Inl TypeError
           | Some ob \<Rightarrow> Inr (h, case proto ob of None \<Rightarrow> Null | Some q \<Rightarrow> Ref q))
      | ProtoSetter \<Rightarrow>
          (case this of
             Undefined \<Rightarrow> Inl TypeError
           | Null \<Rightarrow> Inl TypeError
           | Ref a \<Rightarrow>
               (case first_arg args of
                  Null \<Rightarrow> ebind (set_prototype h a None) (\<lambda>h'. Inr (h', Undefined))
                | Ref q \<Rightarrow> ebind (set_prototype h a (Some q)) (\<lambda>h'. Inr (h', Undefined))
                | _ \<Rightarrow> Inr (h, Undefined))
           | _ \<Rightarrow> Inr (h, Undefined))
      | ThrowTypeError \<Rightarrow> Inl TypeError
      | OtherCode n \<Rightarrow>
          (case code rl n h this args of
             Throw \<Rightarrow> Inl UserException
           | Return r \<Rightarrow> Inr (h, r)))"

text \<open>
  \<open>f.call(this, ...args)\<close>: a value that is not a function cannot be called, and a class
  constructor called without \<open>new\<close> throws a \<open>TypeError\<close>. (Classes are code of the program.)
\<close>

definition call_function ::
  "realm \<Rightarrow> heap \<Rightarrow> val \<Rightarrow> val \<Rightarrow> val list \<Rightarrow> error + heap \<times> val" where
  "call_function rl h f this args =
     (case fn_of h f of
        None \<Rightarrow> Inl TypeError
      | Some c \<Rightarrow>
          if kind c = ClassDefinition \<and> is_program_code (behaviour c) then Inl TypeError
          else run rl h (behaviour c) this args)"

subsection \<open>Property read and property write\<close>

text \<open>
  \<open>v[k]\<close>: a \<open>TypeError\<close> on \<open>undefined\<close> and \<open>null\<close>, \<open>undefined\<close> for a missing property, the
  value of a data property, the result of the getter of an accessor property (\<open>undefined\<close>
  when it has none). A getter is run without arguments, and no behaviour changes the heap
  when run without arguments (\<open>run_no_object_argument\<close> below), so a read returns a value
  only.
\<close>

definition get_v :: "realm \<Rightarrow> heap \<Rightarrow> val \<Rightarrow> string \<Rightarrow> error + val" where
  "get_v rl h v k =
     (if v = Undefined \<or> v = Null then Inl TypeError
      else (case find_prop (objs_of rl h v) k of
              None \<Rightarrow> Inr Undefined
            | Some (Data u w e) \<Rightarrow> Inr u
            | Some (Accessor g s e) \<Rightarrow>
                (case g of
                   None \<Rightarrow> Inr Undefined
                 | Some b \<Rightarrow> ebind (run rl h b v []) (\<lambda>(h', r). Inr r))))"

definition new_prop :: "val \<Rightarrow> property" where
  "new_prop v = Data v True True"

text \<open>
  The write \<open>a[k] = v\<close> when the property found along the chain of \<open>a\<close> is a data property or
  there is none. An own property is overwritten when it is writable. Otherwise a new own
  property (writable, enumerable) is appended, unless an inherited property of that name
  is read-only or the object is not extensible. Every rejected write is a \<open>TypeError\<close>.
  (The language lists integer-like keys before the others; the model keeps the order of
  creation, which decides only which of several rejected writes is met first.)
\<close>

definition set_data :: "heap \<Rightarrow> addr \<Rightarrow> string \<Rightarrow> val \<Rightarrow> error + heap" where
  "set_data h a k v =
     (case lookup_obj h a of
        None \<Rightarrow> Inl TypeError
      | Some ob \<Rightarrow>
          (case map_of (props ob) k of
             Some p \<Rightarrow>
               if writable p
               then Inr (h[a := ob\<lparr>props := AList.update k (Data v True (enumerable p)) (props ob)\<rparr>])
               else Inl TypeError
           | None \<Rightarrow>
               (case find_prop (tl (chain_objs h (Some a))) k of
                  Some p \<Rightarrow>
                    if writable p \<and> extensible ob
                    then Inr (h[a := ob\<lparr>props := AList.update k (new_prop v) (props ob)\<rparr>])
                    else Inl TypeError
                | None \<Rightarrow>
                    if extensible ob
                    then Inr (h[a := ob\<lparr>props := AList.update k (new_prop v) (props ob)\<rparr>])
                    else Inl TypeError)))"

text \<open>
  A write that meets an accessor property runs its setter with the receiver and the value;
  without a setter the write is rejected.
\<close>

definition run_setter ::
  "realm \<Rightarrow> heap \<Rightarrow> behaviour option \<Rightarrow> val \<Rightarrow> val \<Rightarrow> error + heap" where
  "run_setter rl h s this v =
     (case s of
        None \<Rightarrow> Inl TypeError
      | Some b \<Rightarrow> ebind (run rl h b this [v]) (\<lambda>(h', r). Inr h'))"

text \<open>\<open>[[Set]]\<close> on an ordinary object, in strict mode.\<close>

definition set_prop :: "realm \<Rightarrow> heap \<Rightarrow> addr \<Rightarrow> string \<Rightarrow> val \<Rightarrow> error + heap" where
  "set_prop rl h a k v =
     (case find_prop (chain_objs h (Some a)) k of
        Some (Accessor g s e) \<Rightarrow> run_setter rl h s (Ref a) v
      | _ \<Rightarrow> set_data h a k v)"

text \<open>
  \<open>base[k] = v\<close>. On \<open>undefined\<close> and \<open>null\<close> it throws. On a primitive base a setter found
  through the wrapper is run; any other write is rejected because the receiver is not an
  object.
\<close>

definition put_v :: "realm \<Rightarrow> heap \<Rightarrow> val \<Rightarrow> string \<Rightarrow> val \<Rightarrow> error + heap" where
  "put_v rl h base k v =
     (case base of
        Undefined \<Rightarrow> Inl TypeError
      | Null \<Rightarrow> Inl TypeError
      | Ref a \<Rightarrow> set_prop rl h a k v
      | _ \<Rightarrow>
          (case find_prop (objs_of rl h base) k of
             Some (Accessor g s e) \<Rightarrow> run_setter rl h s base v
           | _ \<Rightarrow> Inl TypeError))"

definition for_in_keys :: "realm \<Rightarrow> heap \<Rightarrow> val \<Rightarrow> string list" where
  "for_in_keys rl h v = enum_keys (objs_of rl h v) []"

subsection \<open>\<open>Object.assign\<close> with one source\<close>

definition own_keys :: "realm \<Rightarrow> heap \<Rightarrow> val \<Rightarrow> string list" where
  "own_keys rl h v = (case own_obj rl h v of None \<Rightarrow> [] | Some ob \<Rightarrow> map fst (props ob))"

definition own_prop :: "realm \<Rightarrow> heap \<Rightarrow> val \<Rightarrow> string \<Rightarrow> property option" where
  "own_prop rl h v k = (case own_obj rl h v of None \<Rightarrow> None | Some ob \<Rightarrow> map_of (props ob) k)"

text \<open>\<open>ToObject(target)\<close>: throws on \<open>undefined\<close> and \<open>null\<close>, allocates the wrapper of a primitive.\<close>

definition to_object :: "realm \<Rightarrow> heap \<Rightarrow> val \<Rightarrow> error + heap \<times> addr" where
  "to_object rl h v =
     (case v of
        Undefined \<Rightarrow> Inl TypeError
      | Null \<Rightarrow> Inl TypeError
      | Ref a \<Rightarrow> Inr (h, a)
      | _ \<Rightarrow> Inr (h @ [wrapper rl v], length h))"

text \<open>
  The copy loop: the source's own keys are taken once; for each key the descriptor is read
  again, and an enumerable property is read from the source and written to the target.
\<close>

fun assign_props :: "realm \<Rightarrow> heap \<Rightarrow> addr \<Rightarrow> val \<Rightarrow> string list \<Rightarrow> error + heap" where
  "assign_props rl h to from [] = Inr h"
| "assign_props rl h to from (k # ks) =
     (case own_prop rl h from k of
        None \<Rightarrow> assign_props rl h to from ks
      | Some p \<Rightarrow>
          if enumerable p
          then ebind (get_v rl h from k) (\<lambda>v.
               ebind (set_prop rl h to k v) (\<lambda>h'.
               assign_props rl h' to from ks))
          else assign_props rl h to from ks)"

definition Object_assign :: "realm \<Rightarrow> heap \<Rightarrow> val \<Rightarrow> val \<Rightarrow> error + heap \<times> val" where
  "Object_assign rl h target from =
     ebind (to_object rl h target) (\<lambda>(h0, to).
     ebind (assign_props rl h0 to from (own_keys rl h0 from)) (\<lambda>h'.
     Inr (h', Ref to)))"

subsection \<open>Method calls\<close>

text \<open>
  \<open>v.name(...args)\<close>: the property is read through the chain and called with \<open>v\<close> as
  receiver. The two method calls of the module pass no argument and a string; with such
  arguments no behaviour changes the heap (\<open>run_no_object_argument\<close> below), so the call
  returns a value only.
\<close>

definition invoke :: "realm \<Rightarrow> heap \<Rightarrow> val \<Rightarrow> string \<Rightarrow> val list \<Rightarrow> error + val" where
  "invoke rl h v name args =
     ebind (get_v rl h v name) (\<lambda>f.
     ebind (call_function rl h f v args) (\<lambda>(h', r). Inr r))"

text \<open>
  \<open>r.startsWith(pre)\<close>. On a string it is the built-in \<open>String.prototype.startsWith\<close>, taken to
  be unmodified; on any other value the property \<open>startsWith\<close> is looked up and called.
\<close>

definition startsWith :: "realm \<Rightarrow> heap \<Rightarrow> val \<Rightarrow> string \<Rightarrow> error + val" where
  "startsWith rl h r pre =
     (case r of
        Str s \<Rightarrow> Inr (Bool (take (length pre) s = pre))
      | _ \<Rightarrow> invoke rl h r ''startsWith'' [Str pre])"

definition to_boolean :: "val \<Rightarrow> bool" where
  "to_boolean v =
     (case v of
        Undefined \<Rightarrow> False
      | Null \<Rightarrow> False
      | Bool b \<Rightarrow> b
      | Num n \<Rightarrow> n \<noteq> 0
      | Str s \<Rightarrow> s \<noteq> []
      | Ref a \<Rightarrow> True)"

section \<open>The module \<open>withErrors.ts\<close>\<close>

text \<open>
  \<^verbatim>\<open>function isClass(input) {
    return typeof input === 'function' && input.toString().startsWith('class ');
  }\<close>
\<close>

definition isClass :: "realm \<Rightarrow> heap \<Rightarrow> val \<Rightarrow> error + val" where
  "isClass rl h input =
     (if typeof h input = ''function''
      then ebind (invoke rl h input ''toString'' []) (\<lambda>s. startsWith rl h s ''class '')
      else Inr (Bool False))"

text \<open>
  The inner loop of the class branch,
  \<^verbatim>\<open>for (const errorName in errors) {
    BaseClass.prototype[methodName][errorName] = errors[errorName];
  }\<close>
  over the keys \<open>for-in\<close> found when the loop was entered. Each round reads
  \<open>BaseClass.prototype[methodName]\<close> again, then \<open>errors[errorName]\<close>, then writes.
\<close>

fun annotate_method ::
  "realm \<Rightarrow> heap \<Rightarrow> val \<Rightarrow> string \<Rightarrow> val \<Rightarrow> string list \<Rightarrow> error + heap" where
  "annotate_method rl h BaseClass methodName errors [] = Inr h"
| "annotate_method rl h BaseClass methodName errors (errorName # rest) =
     ebind (get_v rl h BaseClass ''prototype'') (\<lambda>pr.
     ebind (get_v rl h pr methodName) (\<lambda>m.
     ebind (get_v rl h errors errorName) (\<lambda>v.
     ebind (put_v rl h m errorName v) (\<lambda>h'.
     annotate_method rl h' BaseClass methodName errors rest))))"

text \<open>
  The outer loop,
  \<^verbatim>\<open>for (const methodName in errorConfig) {
    if (typeof BaseClass.prototype[methodName] === 'function') {
      const errors = errorConfig[methodName];
      for (const errorName in errors) { ... }
    }
  }\<close>
\<close>

fun annotate_methods ::
  "realm \<Rightarrow> heap \<Rightarrow> val \<Rightarrow> val \<Rightarrow> string list \<Rightarrow> error + heap" where
  "annotate_methods rl h BaseClass errorConfig [] = Inr h"
| "annotate_methods rl h BaseClass errorConfig (methodName # rest) =
     ebind (get_v rl h BaseClass ''prototype'') (\<lambda>pr.
     ebind (get_v rl h pr methodName) (\<lambda>m.
       if typeof h m = ''function''
       then ebind (get_v rl h errorConfig methodName) (\<lambda>errors.
            ebind (annotate_method rl h BaseClass methodName errors (for_in_keys rl h errors)) (\<lambda>h'.
            annotate_methods rl h' BaseClass errorConfig rest))
       else annotate_methods rl h BaseClass errorConfig rest))"

text \<open>
  \<^verbatim>\<open>export function withErrors(target, config) {
    if (isClass(target)) {
      ...
      return BaseClass;
    } else {
      return Object.assign(fn, errors);
    }
  }\<close>
  The result is the heap after the call and the value returned, or the exception.
\<close>

definition withErrors :: "realm \<Rightarrow> heap \<Rightarrow> val \<Rightarrow> val \<Rightarrow> error + heap \<times> val" where
  "withErrors rl h target config =
     ebind (isClass rl h target) (\<lambda>c.
       if to_boolean c
       then ebind (annotate_methods rl h target config (for_in_keys rl h config)) (\<lambda>h'.
            Inr (h', target))
       else Object_assign rl h target config)"

section \<open>Predicates of the statements\<close>

text \<open>
  Two heaps have the same skeleton when they hold the same number of objects and every
  object has kept its prototype link, its extensibility and its function part (kind,
  source text, behaviour of a call). Only property lists may differ.
\<close>

definition same_skeleton :: "heap \<Rightarrow> heap \<Rightarrow> bool" where
  "same_skeleton h h' \<longleftrightarrow>
     length h' = length h \<and>
     (\<forall>b<length h. proto (h' ! b) = proto (h ! b) \<and> extensible (h' ! b) = extensible (h ! b)
        \<and> call (h' ! b) = call (h ! b))"

text \<open>
  Whether the write \<open>a[k] = v\<close> is accepted as a write to a data property: the guards of
  \<open>set_data\<close>. It is false when the property found is an accessor property (\<open>writable\<close> is
  \<open>False\<close> there), whatever its setter does.
\<close>

definition can_set :: "heap \<Rightarrow> addr \<Rightarrow> string \<Rightarrow> bool" where
  "can_set h a k =
     (case lookup_obj h a of
        None \<Rightarrow> False
      | Some ob \<Rightarrow>
          (case map_of (props ob) k of
             Some p \<Rightarrow> writable p
           | None \<Rightarrow>
               (case find_prop (tl (chain_objs h (Some a))) k of
                  Some p \<Rightarrow> writable p \<and> extensible ob
                | None \<Rightarrow> extensible ob)))"

text \<open>
  Whether \<open>v[k]\<close> is a data property or is missing: reading it runs no getter and writing
  it runs no setter.
\<close>

definition data_key :: "realm \<Rightarrow> heap \<Rightarrow> val \<Rightarrow> string \<Rightarrow> bool" where
  "data_key rl h v k = (case find_prop (objs_of rl h v) k of None \<Rightarrow> True | Some p \<Rightarrow> is_data p)"

text \<open>
  Whether the \<open>toString\<close> of a value is the built-in \<open>Function.prototype.toString\<close>, read from
  a data property: then the discriminator runs no code of the program on that value.
\<close>

definition builtin_toString :: "realm \<Rightarrow> heap \<Rightarrow> val \<Rightarrow> bool" where
  "builtin_toString rl h v \<longleftrightarrow>
     data_key rl h v ''toString'' \<and>
     (case get_v rl h v ''toString'' of
        Inl x \<Rightarrow> False
      | Inr f \<Rightarrow>
          (case fn_of h f of
             None \<Rightarrow> False
           | Some c \<Rightarrow> behaviour c = FunctionPrototypeToString))"

text \<open>
  Whether every accessor property of the heap is a built-in one: its getter and its setter,
  where it has them, are among the built-in behaviours above, so that no property read and
  no property write runs code of the program.
\<close>

definition builtin_code :: "behaviour option \<Rightarrow> bool" where
  "builtin_code b = (case b of None \<Rightarrow> True | Some c \<Rightarrow> \<not> is_program_code c)"

definition no_program_accessors :: "heap \<Rightarrow> bool" where
  "no_program_accessors h =
     list_all (\<lambda>ob. list_all (\<lambda>(k, p).
       case p of Data u w e \<Rightarrow> True | Accessor g s e \<Rightarrow> builtin_code g \<and> builtin_code s)
       (props ob)) h"

text \<open>Whether \<open>k\<close> is an own enumerable property of the value: what \<open>Object.assign\<close> copies.\<close>

definition own_enumerable :: "realm \<Rightarrow> heap \<Rightarrow> val \<Rightarrow> string \<Rightarrow> bool" where
  "own_enumerable rl h v k = (case own_prop rl h v k of None \<Rightarrow> False | Some p \<Rightarrow> enumerable p)"

text \<open>
  Whether the prototype chain from an address ends in \<open>null\<close> within the given number of
  steps.
\<close>

fun ends :: "nat \<Rightarrow> heap \<Rightarrow> addr option \<Rightarrow> bool" where
  "ends 0 h a = False"
| "ends (Suc n) h None = True"
| "ends (Suc n) h (Some a) =
     (case lookup_obj h a of None \<Rightarrow> False | Some ob \<Rightarrow> ends n h (proto ob))"

text \<open>
  A chain of ordinary objects: it ends in \<open>null\<close> within the fuel of the traversal and no
  object on it is a function.
\<close>

definition plain_chain :: "heap \<Rightarrow> addr \<Rightarrow> bool" where
  "plain_chain h a \<longleftrightarrow>
     ends (length h) h (Some a) \<and> list_all (\<lambda>b. call (h ! b) = None) (chain (length h) h (Some a))"

text \<open>
  A value whose reads go through ordinary objects only: \<open>undefined\<close>, \<open>null\<close>, an object with
  a chain of ordinary objects, or a primitive whose wrapper prototype has such a chain.
\<close>

definition plain_value :: "realm \<Rightarrow> heap \<Rightarrow> val \<Rightarrow> bool" where
  "plain_value rl h v =
     (case v of
        Undefined \<Rightarrow> True
      | Null \<Rightarrow> True
      | Ref x \<Rightarrow> plain_chain h x
      | _ \<Rightarrow> (case proto (wrapper rl v) of None \<Rightarrow> True | Some x \<Rightarrow> plain_chain h x))"

text \<open>
  The shape a class definition gives a constructor \<open>c\<close> with method table \<open>p\<close>: \<open>prototype\<close>
  is an own, read-only data property of \<open>c\<close> and holds \<open>p\<close>; the prototype chain of \<open>p\<close>
  (the method tables of the class and of its superclasses) is a chain of ordinary objects.
\<close>

definition class_shape :: "heap \<Rightarrow> addr \<Rightarrow> addr \<Rightarrow> bool" where
  "class_shape h c p \<longleftrightarrow>
     c < length h \<and>
     (case map_of (props (h ! c)) ''prototype'' of
        None \<Rightarrow> False
      | Some q \<Rightarrow> is_data q \<and> pval q = Ref p \<and> \<not> writable q) \<and>
     plain_chain h p"

text \<open>
  The function objects that the method table \<open>p\<close> holds under the given keys: the named,
  present methods.
\<close>

definition targets :: "realm \<Rightarrow> heap \<Rightarrow> addr \<Rightarrow> string list \<Rightarrow> addr set" where
  "targets rl h p ks =
     {t. \<exists>k\<in>set ks. get_v rl h (Ref p) k = Inr (Ref t) \<and> fn_of h (Ref t) \<noteq> None}"

text \<open>
  The source text of a function starts with the first token of its definition. A class
  definition starts with the keyword \<open>class\<close>; a function declaration or expression, an
  arrow function and a built-in function start with another token (\<open>function\<close>, \<open>async\<close>,
  a parenthesis or a parameter name, which cannot be a reserved word); a method definition
  starts with the method name, which may be any word. \<open>first_word\<close> is the longest prefix
  made of identifier characters.
\<close>

definition ident_char :: "char \<Rightarrow> bool" where
  "ident_char c \<longleftrightarrow>
     c \<in> set ''abcdefghijklmnopqrstuvwxyzABCDEFGHIJKLMNOPQRSTUVWXYZ0123456789_$''"

definition first_word :: "string \<Rightarrow> string" where
  "first_word s = takeWhile ident_char s"

definition source_matches_kind :: "fn \<Rightarrow> bool" where
  "source_matches_kind f =
     (case kind f of
        ClassDefinition \<Rightarrow> first_word (source f) = ''class''
      | MethodDefinition \<Rightarrow> True
      | _ \<Rightarrow> first_word (source f) \<noteq> ''class'')"

section \<open>Example heaps\<close>

text \<open>
  Property attributes as the language creates them: \<open>new_prop\<close> for an assignment or an
  object literal, \<open>hidden\<close> for a method of a class body and for built-in methods,
  \<open>readonly\<close> for \<open>length\<close> and \<open>name\<close> of a function and \<open>prototype\<close> of a class,
  \<open>builtin_accessor\<close> for the accessor properties of the built-in prototypes.
\<close>

definition hidden :: "val \<Rightarrow> property" where
  "hidden v = Data v True False"

definition readonly :: "val \<Rightarrow> property" where
  "readonly v = Data v False False"

definition builtin_accessor :: "behaviour \<Rightarrow> behaviour \<Rightarrow> property" where
  "builtin_accessor g s = Accessor (Some g) (Some s) False"

definition ordinary :: "(string \<times> property) list \<Rightarrow> addr option \<Rightarrow> obj" where
  "ordinary ps pr = \<lparr>props = ps, proto = pr, extensible = True, call = None\<rparr>"

text \<open>
  A function object: own \<open>length\<close> and \<open>name\<close>, read-only, then the given properties; its
  prototype is \<open>Function.prototype\<close>, at address 1 in the heaps below.
\<close>

definition func_obj ::
  "fkind \<Rightarrow> string \<Rightarrow> behaviour \<Rightarrow> (string \<times> property) list \<Rightarrow> obj" where
  "func_obj k src b ps =
     \<lparr>props = (''length'', readonly (Num 0)) # (''name'', readonly (Str [])) # ps,
      proto = Some 1, extensible = True,
      call = Some \<lparr>kind = k, source = src, behaviour = b\<rparr>\<rparr>"

text \<open>
  The code of the program's functions in the examples, by number: 0 throws, 1 returns
  \<open>undefined\<close>, 2 returns the number 1, 3 returns the string \<open>class X {}\<close>, and 4 is
  \<^verbatim>\<open>function () { return this.Boom ? 'class X {}' : 'f' }\<close>
\<close>

definition demo_code :: "nat \<Rightarrow> heap \<Rightarrow> val \<Rightarrow> val list \<Rightarrow> outcome" where
  "demo_code n h this args =
     (if n = 0 then Throw
      else if n = 1 then Return Undefined
      else if n = 2 then Return (Num 1)
      else if n = 3 then Return (Str ''class X {}'')
      else (case this of
              Ref a \<Rightarrow>
                (case find_prop (chain_objs h (Some a)) ''Boom'' of
                   Some (Data v w e) \<Rightarrow>
                     Return (Str (if to_boolean v then ''class X {}'' else ''f''))
                 | _ \<Rightarrow> Return (Str ''f''))
            | _ \<Rightarrow> Return (Str ''f'')))"

text \<open>
  The built-in objects, at addresses 0 to 5: \<open>Object.prototype\<close> with its accessor
  \<open>__proto__\<close>, \<open>Function.prototype\<close> with \<open>toString\<close> and its accessors \<open>caller\<close> and
  \<open>arguments\<close>, \<open>Function.prototype.toString\<close>, \<open>Boolean.prototype\<close>, \<open>Number.prototype\<close>,
  \<open>String.prototype\<close>.
\<close>

definition demo_realm :: realm where
  "demo_realm =
     \<lparr>BooleanPrototype = 3, NumberPrototype = 4, StringPrototype = 5, code = demo_code\<rparr>"

definition builtins :: heap where
  "builtins =
     [ordinary [(''__proto__'', builtin_accessor ProtoGetter ProtoSetter)] None,
      (func_obj BuiltinFunction ''function () { [native code] }'' (OtherCode 1)
         [(''toString'', hidden (Ref 2)),
          (''caller'', builtin_accessor ThrowTypeError ThrowTypeError),
          (''arguments'', builtin_accessor ThrowTypeError ThrowTypeError)])
        \<lparr>proto := Some 0\<rparr>,
      func_obj BuiltinFunction ''function toString() { [native code] }''
        FunctionPrototypeToString [],
      ordinary [] (Some 0),
      ordinary [] (Some 0),
      ordinary [] (Some 0)]"

text \<open>
  The scenario of the specification, with an instance and an arrow function:
  \<^verbatim>\<open>class Boom {}                            // 6, Boom.prototype 7
  class S { op() { throw new Boom() } }    // 8, S.prototype 9, op 10
  const slots = { Boom }                   // 11
  const cfg = { op: slots }                // 12
  const s = new S()                        // 13
  const f = () => { throw new Boom() }     // 14\<close>
\<close>

definition scenario :: heap where
  "scenario = builtins @
     [func_obj ClassDefinition ''class Boom {}'' (OtherCode 0)
        [(''prototype'', readonly (Ref 7))],
      ordinary [(''constructor'', hidden (Ref 6))] (Some 0),
      func_obj ClassDefinition ''class S { op() { throw new Boom() } }'' (OtherCode 0)
        [(''prototype'', readonly (Ref 9))],
      ordinary [(''constructor'', hidden (Ref 8)), (''op'', hidden (Ref 10))] (Some 0),
      func_obj MethodDefinition ''op() { throw new Boom() }'' (OtherCode 0) [],
      ordinary [(''Boom'', new_prop (Ref 6))] (Some 0),
      ordinary [(''op'', new_prop (Ref 11))] (Some 0),
      ordinary [] (Some 9),
      func_obj ArrowFunction ''() => { throw new Boom() }'' (OtherCode 0) []]"


text \<open>
  An arrow function whose own property \<open>toString\<close> is another function:
  \<^verbatim>\<open>const g = () => 1                       // 6
  g.toString = () => `class X {}`          // 7\<close>
\<close>

definition disguised :: heap where
  "disguised = builtins @
     [func_obj ArrowFunction ''() => 1'' (OtherCode 2)
        [(''toString'', new_prop (Ref 7))],
      func_obj ArrowFunction ''() => `class X {}`'' (OtherCode 3) []]"

text \<open>
  A class with one method reachable under two names:
  \<^verbatim>\<open>class Boom {}                            // 6, Boom.prototype 7
  class T { a() {} }                       // 8, T.prototype 9, a 10
  T.prototype.b = T.prototype.a
  const slots = { Boom }                   // 11
  const cfg = { a: slots }                 // 12\<close>
\<close>

definition aliased :: heap where
  "aliased = builtins @
     [func_obj ClassDefinition ''class Boom {}'' (OtherCode 0)
        [(''prototype'', readonly (Ref 7))],
      ordinary [(''constructor'', hidden (Ref 6))] (Some 0),
      func_obj ClassDefinition ''class T { a() {} }'' (OtherCode 0)
        [(''prototype'', readonly (Ref 9))],
      ordinary [(''constructor'', hidden (Ref 8)), (''a'', hidden (Ref 10)),
        (''b'', new_prop (Ref 10))] (Some 0),
      func_obj MethodDefinition ''a() {}'' (OtherCode 1) [],
      ordinary [(''Boom'', new_prop (Ref 6))] (Some 0),
      ordinary [(''a'', new_prop (Ref 11))] (Some 0)]"



text \<open>
  A superclass with two subclasses, one of which overrides the method:
  \<^verbatim>\<open>class Boom {}                            // 6, Boom.prototype 7
  class B { m() {} }                       // 8, B.prototype 9, m 10
  class C extends B {}                     // 11, C.prototype 12
  class D extends B { m() {} }             // 13, D.prototype 14, its m 15
  const slots = { Boom }                   // 16
  const cfg = { m: slots }                 // 17
  const d = new D()                        // 18
  const b = new B()                        // 19\<close>
\<close>

definition overriding :: heap where
  "overriding = builtins @
     [func_obj ClassDefinition ''class Boom {}'' (OtherCode 0)
        [(''prototype'', readonly (Ref 7))],
      ordinary [(''constructor'', hidden (Ref 6))] (Some 0),
      func_obj ClassDefinition ''class B { m() {} }'' (OtherCode 0)
        [(''prototype'', readonly (Ref 9))],
      ordinary [(''constructor'', hidden (Ref 8)), (''m'', hidden (Ref 10))] (Some 0),
      func_obj MethodDefinition ''m() {}'' (OtherCode 1) [],
      (func_obj ClassDefinition ''class C extends B {}'' (OtherCode 0)
        [(''prototype'', readonly (Ref 12))])\<lparr>proto := Some 8\<rparr>,
      ordinary [(''constructor'', hidden (Ref 11))] (Some 9),
      (func_obj ClassDefinition ''class D extends B { m() {} }'' (OtherCode 0)
        [(''prototype'', readonly (Ref 14))])\<lparr>proto := Some 8\<rparr>,
      ordinary [(''constructor'', hidden (Ref 13)), (''m'', hidden (Ref 15))] (Some 9),
      func_obj MethodDefinition ''m() {}'' (OtherCode 1) [],
      ordinary [(''Boom'', new_prop (Ref 6))] (Some 0),
      ordinary [(''m'', new_prop (Ref 16))] (Some 0),
      ordinary [] (Some 14),
      ordinary [] (Some 9)]"

text \<open>
  The scenario with a second error class and four more configs; \<open>twice_f\<close> and \<open>twice_op\<close>
  are this heap after the arrow function, respectively the method, got the slot \<open>Boom\<close>:
  \<^verbatim>\<open>const t1 = { toString: Boom }            // 15
  class Bang {}                            // 16, Bang.prototype 17
  const t2 = { toString: Bang }            // 18
  const slots2 = { Boom: Bang }            // 19
  const cfg2 = { op: slots2 }              // 20\<close>
\<close>

definition twice :: heap where
  "twice = scenario @
     [ordinary [(''toString'', new_prop (Ref 6))] (Some 0),
      func_obj ClassDefinition ''class Bang {}'' (OtherCode 0)
        [(''prototype'', readonly (Ref 17))],
      ordinary [(''constructor'', hidden (Ref 16))] (Some 0),
      ordinary [(''toString'', new_prop (Ref 16))] (Some 0),
      ordinary [(''Boom'', new_prop (Ref 16))] (Some 0),
      ordinary [(''op'', new_prop (Ref 19))] (Some 0)]"

definition twice_f :: heap where
  "twice_f = twice[14 := func_obj ArrowFunction ''() => { throw new Boom() }'' (OtherCode 0)
     [(''Boom'', new_prop (Ref 6))]]"

definition twice_op :: heap where
  "twice_op = twice[10 := func_obj MethodDefinition ''op() { throw new Boom() }'' (OtherCode 0)
     [(''Boom'', new_prop (Ref 6))]]"


text \<open>
  A class written without a space after the keyword, as minifiers print it:
  \<^verbatim>\<open>const M = class{m(){}}                  // 6, M.prototype 7, m 8\<close>
\<close>

definition spaceless :: heap where
  "spaceless = builtins @
     [func_obj ClassDefinition ''class{m(){}}'' (OtherCode 0)
        [(''prototype'', readonly (Ref 7))],
      ordinary [(''constructor'', hidden (Ref 6)), (''m'', hidden (Ref 8))] (Some 0),
      func_obj MethodDefinition ''m(){}'' (OtherCode 1) []]"

text \<open>
  The scenario with configs whose slot names meet accessor properties of the built-in
  prototypes:
  \<^verbatim>\<open>const c1 = { caller: Boom }             // 15
  const c2 = { ['__proto__']: 5 }          // 16, an own property named __proto__
  const c3 = { ['__proto__']: slots }      // 17
  const c4 = { op: c3 }                    // 18\<close>
\<close>

definition accessor_slots :: heap where
  "accessor_slots = scenario @
     [ordinary [(''caller'', new_prop (Ref 6))] (Some 0),
      ordinary [(''__proto__'', new_prop (Num 5))] (Some 0),
      ordinary [(''__proto__'', new_prop (Ref 11))] (Some 0),
      ordinary [(''op'', new_prop (Ref 17))] (Some 0)]"

text \<open>
  An arrow function whose own \<open>toString\<close> looks at the slot \<open>Boom\<close> of its receiver:
  \<^verbatim>\<open>class Boom {}                            // 6, Boom.prototype 7
  const g = () => 1                        // 8
  g.toString = function () { return this.Boom ? 'class X {}' : 'f' }   // 9
  const slots = { Boom }                   // 10
  class Bang {}                            // 11, Bang.prototype 12
  const slots2 = { Boom: Bang }            // 13\<close>
  (The object at 14 is the \<open>prototype\<close> of the function at 9.)
\<close>

definition watching :: heap where
  "watching = builtins @
     [func_obj ClassDefinition ''class Boom {}'' (OtherCode 0)
        [(''prototype'', readonly (Ref 7))],
      ordinary [(''constructor'', hidden (Ref 6))] (Some 0),
      func_obj ArrowFunction ''() => 1'' (OtherCode 2)
        [(''toString'', new_prop (Ref 9))],
      func_obj FunctionDefinition ''function () { return this.Boom ? 'class X {}' : 'f' }''
        (OtherCode 4) [(''prototype'', hidden (Ref 14))],
      ordinary [(''Boom'', new_prop (Ref 6))] (Some 0),
      func_obj ClassDefinition ''class Bang {}'' (OtherCode 0)
        [(''prototype'', readonly (Ref 12))],
      ordinary [(''constructor'', hidden (Ref 11))] (Some 0),
      ordinary [(''Boom'', new_prop (Ref 11))] (Some 0),
      ordinary [(''constructor'', hidden (Ref 9))] (Some 0)]"

section \<open>Basic facts\<close>

lemma ebind_Inl [simp]: "ebind (Inl e) f = Inl e"
  by (simp add: ebind_def)

lemma ebind_Inr [simp]: "ebind (Inr x) f = f x"
  by (simp add: ebind_def)

lemma ebind_eq_Inr: "ebind m f = Inr y \<longleftrightarrow> (\<exists>x. m = Inr x \<and> f x = Inr y)"
  by (cases m) simp_all

lemma to_object_Ref [simp]: "to_object rl h (Ref a) = Inr (h, a)"
  by (simp add: to_object_def)

lemma writable_is_data: "writable p \<Longrightarrow> is_data p"
  by (cases p) simp_all

lemma same_skeleton_refl [simp]: "same_skeleton h h"
  by (simp add: same_skeleton_def)

lemma same_skeleton_trans: "same_skeleton h h1 \<Longrightarrow> same_skeleton h1 h2 \<Longrightarrow> same_skeleton h h2"
  by (simp add: same_skeleton_def)

lemma same_skeleton_len: "same_skeleton h h' \<Longrightarrow> length h' = length h"
  by (simp add: same_skeleton_def)

lemma chain_bound: "b \<in> set (chain n h x) \<Longrightarrow> b < length h"
  by (induction n h x rule: chain.induct) (auto simp: lookup_obj_def split: if_splits)

text \<open>A chain depends only on the prototype links of the objects on it.\<close>

lemma chain_cong:
  assumes "length h' = length h"
    and "\<And>b. b \<in> set (chain n h x) \<Longrightarrow> proto (h' ! b) = proto (h ! b)"
  shows "chain n h' x = chain n h x"
  using assms(2)
proof (induction n arbitrary: x)
  case 0
  show ?case by simp
next
  case (Suc n)
  show ?case
  proof (cases x)
    case None
    then show ?thesis by simp
  next
    case (Some a)
    show ?thesis
    proof (cases "a < length h")
      case True
      with Some have in_chain: "a \<in> set (chain (Suc n) h x)"
        by (simp add: lookup_obj_def)
      from Suc.prems [OF this] have pr: "proto (h' ! a) = proto (h ! a)" .
      have "chain n h' (proto (h ! a)) = chain n h (proto (h ! a))"
      proof (rule Suc.IH)
        fix b assume "b \<in> set (chain n h (proto (h ! a)))"
        with True Some have "b \<in> set (chain (Suc n) h x)"
          by (simp add: lookup_obj_def)
        then show "proto (h' ! b) = proto (h ! b)" by (rule Suc.prems)
      qed
      with True Some pr assms(1) show ?thesis
        by (simp add: lookup_obj_def)
    next
      case False
      with Some assms(1) show ?thesis
        by (simp add: lookup_obj_def)
    qed
  qed
qed

lemma same_skeleton_chain: "same_skeleton h h' \<Longrightarrow> chain n h' x = chain n h x"
  by (rule chain_cong) (auto simp: same_skeleton_def dest: chain_bound)

lemma same_skeleton_fn_of: "same_skeleton h h' \<Longrightarrow> fn_of h' v = fn_of h v"
  by (cases v) (auto simp: fn_of_def lookup_obj_def same_skeleton_def)

lemma same_skeleton_typeof: "same_skeleton h h' \<Longrightarrow> typeof h' v = typeof h v"
  by (cases v) (simp_all add: typeof_def same_skeleton_fn_of)

lemma fn_of_cong:
  "length h' = length h \<Longrightarrow> (\<And>b. call (h' ! b) = call (h ! b)) \<Longrightarrow> fn_of h' v = fn_of h v"
  by (cases v) (auto simp: fn_of_def lookup_obj_def)

lemma typeof_cong:
  assumes "length h' = length h" and "\<And>b. call (h' ! b) = call (h ! b)"
  shows "typeof h' v = typeof h v"
proof -
  have "fn_of h' v = fn_of h v" using assms by (rule fn_of_cong)
  then show ?thesis by (cases v) (simp_all add: typeof_def)
qed

subsection \<open>Writes to data properties\<close>

text \<open>What a successful write to a data property does to the heap.\<close>

lemma set_data_Inr:
  assumes "set_data h a k v = Inr h'"
  shows "a < length h \<and> can_set h a k \<and>
     (\<exists>p. is_data p \<and> pval p = v \<and> writable p
        \<and> (enumerable p \<longleftrightarrow> (case map_of (props (h ! a)) k of None \<Rightarrow> True | Some q \<Rightarrow> enumerable q))
        \<and> h' = h[a := (h ! a)\<lparr>props := AList.update k p (props (h ! a))\<rparr>])"
proof (cases "map_of (props (h ! a)) k")
  case None
  with assms have "a < length h" "can_set h a k"
    and "h' = h[a := (h ! a)\<lparr>props := AList.update k (new_prop v) (props (h ! a))\<rparr>]"
    by (auto simp: set_data_def can_set_def lookup_obj_def split: if_splits option.splits)
  with None show ?thesis
    by (intro conjI exI [of _ "new_prop v"]) (simp_all add: new_prop_def)
next
  case (Some q)
  with assms have "a < length h" "can_set h a k" "writable q"
    and "h' = h[a := (h ! a)\<lparr>props := AList.update k (Data v True (enumerable q)) (props (h ! a))\<rparr>]"
    by (auto simp: set_data_def can_set_def lookup_obj_def split: if_splits option.splits)
  with Some show ?thesis
    by (intro conjI exI [of _ "Data v True (enumerable q)"]) simp_all
qed

lemma can_set_set_data: "can_set h a k \<Longrightarrow> \<exists>h'. set_data h a k v = Inr h'"
  by (auto simp: set_data_def can_set_def split: option.splits)

lemma can_set_valid: "can_set h a k \<Longrightarrow> a < length h"
  by (auto simp: can_set_def lookup_obj_def split: if_splits)

lemma set_data_skeleton: "set_data h a k v = Inr h' \<Longrightarrow> same_skeleton h h'"
  by (drule set_data_Inr) (auto simp: same_skeleton_def nth_list_update split: if_splits)

lemma set_data_other: "set_data h a k v = Inr h' \<Longrightarrow> b \<noteq> a \<Longrightarrow> h' ! b = h ! b"
  by (drule set_data_Inr) auto

lemma set_data_other_key:
  "set_data h a k v = Inr h' \<Longrightarrow> k' \<noteq> k \<Longrightarrow> map_of (props (h' ! b)) k' = map_of (props (h ! b)) k'"
  by (drule set_data_Inr) (auto simp: nth_list_update update_conv' split: if_splits)

lemma set_data_own:
  "set_data h a k v = Inr h' \<Longrightarrow>
     \<exists>p. map_of (props (h' ! a)) k = Some p \<and> is_data p \<and> pval p = v \<and> writable p"
  by (drule set_data_Inr) (auto simp: update_conv')

text \<open>A write to an own property keeps the key and whether it is enumerable.\<close>

lemma set_data_enumerable:
  assumes "set_data h a k v = Inr h'" and "map_of (props (h ! a)) k \<noteq> None"
  shows "map_option enumerable (map_of (props (h' ! b)) k')
      = map_option enumerable (map_of (props (h ! b)) k')"
proof -
  from assms(2) obtain q where q: "map_of (props (h ! a)) k = Some q" by auto
  with assms(1) have a: "a < length h"
    and h': "h' = h[a := (h ! a)\<lparr>props := AList.update k (Data v True (enumerable q)) (props (h ! a))\<rparr>]"
    by (auto simp: set_data_def lookup_obj_def split: if_splits option.splits)
  show ?thesis
  proof (cases "b = a")
    case True
    with a h' q show ?thesis by (simp add: update_conv')
  next
    case False
    with h' show ?thesis by simp
  qed
qed

subsection \<open>Calls and writes in general\<close>

lemma set_prototype_Inr:
  assumes "set_prototype h a q = Inr h'"
  shows "a < length h \<and> h' = h[a := (h ! a)\<lparr>proto := q\<rparr>]"
proof -
  from assms have a: "a < length h"
    by (auto simp: set_prototype_def lookup_obj_def split: if_splits)
  show ?thesis
  proof (cases "proto (h ! a) = q")
    case True
    with assms a have "h' = h"
      by (simp add: set_prototype_def lookup_obj_def)
    moreover from True have "(h ! a)\<lparr>proto := q\<rparr> = h ! a" by auto
    ultimately show ?thesis using a by simp
  next
    case False
    with assms a show ?thesis
      by (auto simp: set_prototype_def lookup_obj_def split: if_splits)
  qed
qed

text \<open>
  Running a behaviour leaves the heap as it is or gives the receiver, an object, another
  prototype.
\<close>

lemma run_Inr:
  assumes "run rl h b this args = Inr (h', r)"
  shows "h' = h \<or> (\<exists>a q. this = Ref a \<and> a < length h \<and> h' = h[a := (h ! a)\<lparr>proto := q\<rparr>])"
proof (cases b)
  case ProtoSetter
  show ?thesis
  proof (cases this)
    case (Ref a)
    show ?thesis
    proof (cases "first_arg args")
      case Null
      with assms ProtoSetter Ref have "set_prototype h a None = Inr h'"
        by (auto simp: run_def ebind_eq_Inr)
      from set_prototype_Inr [OF this] Ref show ?thesis by blast
    next
      case arg: (Ref q)
      with assms ProtoSetter Ref have "set_prototype h a (Some q) = Inr h'"
        by (auto simp: run_def ebind_eq_Inr)
      from set_prototype_Inr [OF this] Ref show ?thesis by blast
    qed (use assms ProtoSetter Ref in \<open>auto simp: run_def\<close>)
  qed (use assms ProtoSetter in \<open>auto simp: run_def\<close>)
qed (use assms in \<open>auto simp: run_def split: option.splits outcome.splits\<close>)

text \<open>
  Without an argument that is an object or \<open>null\<close>, no behaviour changes the heap: this is
  so for a getter, which is run without arguments, and for the two method calls of
  \<open>isClass\<close>.
\<close>

lemma run_no_object_argument:
  assumes "run rl h b this args = Inr (h', r)"
    and "first_arg args \<noteq> Null" and "\<And>q. first_arg args \<noteq> Ref q"
  shows "h' = h"
proof (cases b)
  case ProtoSetter
  with assms show ?thesis
    by (cases this; cases "first_arg args") (auto simp: run_def)
qed (use assms in \<open>auto simp: run_def split: option.splits outcome.splits\<close>)

lemma run_frame:
  assumes "run rl h b this args = Inr (h', r)"
  shows "length h' = length h"
    and "call (h' ! x) = call (h ! x)"
    and "extensible (h' ! x) = extensible (h ! x)"
    and "props (h' ! x) = props (h ! x)"
    and "this \<noteq> Ref x \<Longrightarrow> h' ! x = h ! x"
proof -
  from run_Inr [OF assms] consider "h' = h"
    | a q where "this = Ref a" "a < length h" "h' = h[a := (h ! a)\<lparr>proto := q\<rparr>]"
    by blast
  then have "length h' = length h \<and> call (h' ! x) = call (h ! x) \<and>
      extensible (h' ! x) = extensible (h ! x) \<and> props (h' ! x) = props (h ! x) \<and>
      (this \<noteq> Ref x \<longrightarrow> h' ! x = h ! x)"
  proof cases
    case 1
    then show ?thesis by simp
  next
    case 2
    then show ?thesis by (cases "x = a") simp_all
  qed
  then show "length h' = length h"
    and "call (h' ! x) = call (h ! x)"
    and "extensible (h' ! x) = extensible (h ! x)"
    and "props (h' ! x) = props (h ! x)"
    and "this \<noteq> Ref x \<Longrightarrow> h' ! x = h ! x"
    by simp_all
qed

lemma run_setter_frame:
  assumes "run_setter rl h s this v = Inr h'"
  shows "length h' = length h"
    and "call (h' ! x) = call (h ! x)"
    and "extensible (h' ! x) = extensible (h ! x)"
    and "props (h' ! x) = props (h ! x)"
    and "this \<noteq> Ref x \<Longrightarrow> h' ! x = h ! x"
proof -
  from assms obtain b r where "run rl h b this [v] = Inr (h', r)"
    by (auto simp: run_setter_def ebind_eq_Inr split: option.splits)
  note fr = run_frame [OF this]
  show "length h' = length h" by (rule fr)
  show "call (h' ! x) = call (h ! x)" by (rule fr)
  show "extensible (h' ! x) = extensible (h ! x)" by (rule fr)
  show "props (h' ! x) = props (h ! x)" by (rule fr)
  show "this \<noteq> Ref x \<Longrightarrow> h' ! x = h ! x" by (rule fr)
qed

text \<open>
  A write goes to a data property, as \<open>set_data\<close> does it, or runs a setter.
\<close>

lemma set_prop_cases:
  assumes "set_prop rl h a k v = Inr h'"
  obtains (data) "set_data h a k v = Inr h'"
  | (setter) s where "run_setter rl h s (Ref a) v = Inr h'"
  using assms by (auto simp: set_prop_def split: option.splits property.splits)

text \<open>
  Whatever a write does, it allocates nothing, keeps the function part and the
  extensibility of every object, changes no object but the receiver, and leaves the own
  properties under every other key as they were.
\<close>

lemma set_prop_frame:
  assumes "set_prop rl h a k v = Inr h'"
  shows "length h' = length h"
    and "call (h' ! b) = call (h ! b)"
    and "extensible (h' ! b) = extensible (h ! b)"
    and "b \<noteq> a \<Longrightarrow> h' ! b = h ! b"
    and "k' \<noteq> k \<Longrightarrow> map_of (props (h' ! b)) k' = map_of (props (h ! b)) k'"
proof -
  have "length h' = length h \<and> call (h' ! b) = call (h ! b) \<and>
      extensible (h' ! b) = extensible (h ! b) \<and> (b \<noteq> a \<longrightarrow> h' ! b = h ! b) \<and>
      (k' \<noteq> k \<longrightarrow> map_of (props (h' ! b)) k' = map_of (props (h ! b)) k')"
    using assms
  proof (cases rule: set_prop_cases)
    case data
    from set_data_skeleton [OF data] have "length h' = length h"
      and "b < length h \<Longrightarrow> call (h' ! b) = call (h ! b) \<and> extensible (h' ! b) = extensible (h ! b)"
      by (simp_all add: same_skeleton_def)
    moreover have "\<not> b < length h \<Longrightarrow> h' ! b = h ! b"
      using set_data_Inr [OF data] by (intro set_data_other [OF data]) auto
    ultimately show ?thesis
      using set_data_other [OF data, of b] set_data_other_key [OF data, of k' b]
      by (cases "b < length h") auto
  next
    case (setter s)
    note fr = run_setter_frame [OF setter]
    from fr(1) fr(2) [of b] fr(3) [of b] fr(4) [of b] fr(5) [of b] show ?thesis by auto
  qed
  then show "length h' = length h"
    and "call (h' ! b) = call (h ! b)"
    and "extensible (h' ! b) = extensible (h ! b)"
    and "b \<noteq> a \<Longrightarrow> h' ! b = h ! b"
    and "k' \<noteq> k \<Longrightarrow> map_of (props (h' ! b)) k' = map_of (props (h ! b)) k'"
    by simp_all
qed

lemma put_v_frame:
  assumes "put_v rl h base k v = Inr h'"
  shows "length h' = length h"
    and "call (h' ! b) = call (h ! b)"
    and "extensible (h' ! b) = extensible (h ! b)"
    and "base \<noteq> Ref b \<Longrightarrow> h' ! b = h ! b"
proof -
  have "length h' = length h \<and> call (h' ! b) = call (h ! b) \<and>
      extensible (h' ! b) = extensible (h ! b) \<and> (base \<noteq> Ref b \<longrightarrow> h' ! b = h ! b)"
  proof (cases base)
    case (Ref a)
    with assms have w: "set_prop rl h a k v = Inr h'" by (simp add: put_v_def)
    from set_prop_frame(1) [OF w] set_prop_frame(2) [OF w, of b] set_prop_frame(3) [OF w, of b]
      set_prop_frame(4) [OF w, of b] Ref
    show ?thesis by auto
  next
    case Undefined
    with assms show ?thesis by (simp add: put_v_def)
  next
    case Null
    with assms show ?thesis by (simp add: put_v_def)
  next
    case (Bool x)
    with assms obtain s where w: "run_setter rl h s base v = Inr h'"
      by (auto simp: put_v_def split: option.splits property.splits)
    note fr = run_setter_frame [OF w]
    from fr(1) fr(2) [of b] fr(3) [of b] fr(5) [of b] show ?thesis by auto
  next
    case (Num x)
    with assms obtain s where w: "run_setter rl h s base v = Inr h'"
      by (auto simp: put_v_def split: option.splits property.splits)
    note fr = run_setter_frame [OF w]
    from fr(1) fr(2) [of b] fr(3) [of b] fr(5) [of b] show ?thesis by auto
  next
    case (Str x)
    with assms obtain s where w: "run_setter rl h s base v = Inr h'"
      by (auto simp: put_v_def split: option.splits property.splits)
    note fr = run_setter_frame [OF w]
    from fr(1) fr(2) [of b] fr(3) [of b] fr(5) [of b] show ?thesis by auto
  qed
  then show "length h' = length h"
    and "call (h' ! b) = call (h ! b)"
    and "extensible (h' ! b) = extensible (h ! b)"
    and "base \<noteq> Ref b \<Longrightarrow> h' ! b = h ! b"
    by simp_all
qed

subsection \<open>Reads and writes that run no getter or setter\<close>

lemma chain_Some_valid:
  "a < length h \<Longrightarrow> chain (length h) h (Some a) = a # chain (length h - 1) h (proto (h ! a))"
  by (cases "length h") (simp_all add: lookup_obj_def)

lemma chain_objs_Some_valid:
  "a < length h \<Longrightarrow> chain_objs h (Some a) = h ! a # map (\<lambda>b. h ! b) (chain (length h - 1) h (proto (h ! a)))"
  by (simp add: chain_objs_def chain_Some_valid)

lemma chain_objs_invalid: "\<not> a < length h \<Longrightarrow> chain_objs h (Some a) = []"
  by (cases "length h") (simp_all add: chain_objs_def lookup_obj_def)

lemma chain_None: "chain n h None = []"
  by (cases n) simp_all

lemma find_prop_own:
  "a < length h \<Longrightarrow> find_prop (chain_objs h (Some a)) k =
     (case map_of (props (h ! a)) k of
        Some p \<Rightarrow> Some p
      | None \<Rightarrow> find_prop (tl (chain_objs h (Some a))) k)"
  by (simp add: chain_objs_Some_valid split: option.splits)

text \<open>A write that is accepted as a write to a data property runs no setter.\<close>

lemma can_set_data_key:
  assumes "can_set h a k"
  shows "data_key rl h (Ref a) k"
proof -
  from assms have a: "a < length h" by (rule can_set_valid)
  with assms show ?thesis
    by (auto simp: can_set_def data_key_def objs_of_def lookup_obj_def find_prop_own
        writable_is_data split: option.splits)
qed

lemma set_prop_data: "data_key rl h (Ref a) k \<Longrightarrow> set_prop rl h a k v = set_data h a k v"
  by (auto simp: set_prop_def data_key_def objs_of_def split: option.splits property.splits)

lemma get_v_data:
  assumes "v \<noteq> Undefined" and "v \<noteq> Null" and "data_key rl h v k"
  shows "get_v rl h v k =
     Inr (case find_prop (objs_of rl h v) k of None \<Rightarrow> Undefined | Some p \<Rightarrow> pval p)"
  using assms by (auto simp: get_v_def data_key_def split: option.splits property.splits)

lemma get_v_Ref:
  "data_key rl h (Ref a) k \<Longrightarrow> get_v rl h (Ref a) k =
     Inr (case find_prop (chain_objs h (Some a)) k of None \<Rightarrow> Undefined | Some p \<Rightarrow> pval p)"
  using get_v_data [of "Ref a" rl h k] by (simp add: objs_of_def)

lemma get_v_data_defined:
  "data_key rl h (Ref a) k \<Longrightarrow> \<exists>m. get_v rl h (Ref a) k = Inr m"
  by (simp add: get_v_Ref)

text \<open>
  Reads that find the same property give the same result when that property is a data
  property.
\<close>

lemma lookup_cong:
  assumes "find_prop (objs_of rl h' v) k = find_prop (objs_of rl h v) k"
    and "data_key rl h v k"
  shows "data_key rl h' v k" and "get_v rl h' v k = get_v rl h v k"
proof -
  from assms show dk: "data_key rl h' v k"
    by (simp add: data_key_def)
  show "get_v rl h' v k = get_v rl h v k"
  proof (cases "v = Undefined \<or> v = Null")
    case True
    then show ?thesis by (auto simp: get_v_def)
  next
    case False
    with assms dk show ?thesis by (simp add: get_v_data)
  qed
qed

lemma own_prop_neq_Undefined: "own_prop rl h v k = Some p \<Longrightarrow> v \<noteq> Undefined \<and> v \<noteq> Null"
  by (auto simp: own_prop_def own_obj_def)

lemma own_prop_find:
  assumes "own_prop rl h from k = Some p"
  shows "find_prop (objs_of rl h from) k = Some p"
proof (cases "from")
  case (Ref c)
  with assms have "c < length h" "map_of (props (h ! c)) k = Some p"
    by (auto simp: own_prop_def own_obj_def lookup_obj_def split: if_splits)
  with Ref show ?thesis
    by (simp add: objs_of_def chain_objs_Some_valid)
qed (use assms in \<open>auto simp: own_prop_def own_obj_def objs_of_def\<close>)

text \<open>Reading an own data property gives its value.\<close>

lemma own_data_key: "own_prop rl h from k = Some p \<Longrightarrow> is_data p \<Longrightarrow> data_key rl h from k"
  by (simp add: data_key_def own_prop_find)

lemma get_v_own:
  assumes "own_prop rl h from k = Some p" and "is_data p"
  shows "get_v rl h from k = Inr (pval p)"
  using get_v_data [OF _ _ own_data_key [OF assms]] own_prop_neq_Undefined [OF assms(1)]
    own_prop_find [OF assms(1)]
  by simp

lemma own_prop_Ref:
  "a < length h \<Longrightarrow> own_prop rl h (Ref a) k = map_of (props (h ! a)) k"
  by (simp add: own_prop_def own_obj_def lookup_obj_def)

lemma own_prop_Ref_get:
  "a < length h \<Longrightarrow> map_of (props (h ! a)) k = Some q \<Longrightarrow> is_data q \<Longrightarrow>
     get_v rl h (Ref a) k = Inr (pval q)"
  by (rule get_v_own) (simp_all add: own_prop_Ref)


subsection \<open>The loops, one round at a time\<close>

lemma own_enumerable_key: "own_enumerable rl h config k \<Longrightarrow> k \<in> set (own_keys rl h config)"
  by (auto simp: own_enumerable_def own_prop_def own_keys_def
      split: option.splits dest: map_of_SomeD intro: rev_image_eqI)

lemma own_prop_key: "own_prop rl h v k = Some p \<Longrightarrow> k \<in> set (own_keys rl h v)"
  by (auto simp: own_prop_def own_keys_def split: option.splits dest: map_of_SomeD
      intro: rev_image_eqI)


lemma own_keys_nothing [simp]: "own_keys rl h Undefined = []" "own_keys rl h Null = []"
  by (simp_all add: own_keys_def own_obj_def)

lemma for_in_keys_nothing [simp]:
  "for_in_keys rl h Undefined = []" "for_in_keys rl h Null = []"
  by (simp_all add: for_in_keys_def objs_of_def)

lemma assign_props_skip:
  "\<not> own_enumerable rl h from k \<Longrightarrow>
     assign_props rl h a from (k # ks) = assign_props rl h a from ks"
  by (auto simp: own_enumerable_def split: option.splits)

lemma assign_props_copy:
  "own_enumerable rl h from k \<Longrightarrow>
     assign_props rl h a from (k # ks) =
       ebind (get_v rl h from k) (\<lambda>v.
       ebind (set_prop rl h a k v) (\<lambda>h1. assign_props rl h1 a from ks))"
  by (auto simp: own_enumerable_def split: option.splits)

lemma assign_props_step:
  assumes "assign_props rl h a from (k # ks) = Inr h'"
  obtains (skip) "\<not> own_enumerable rl h from k" and "assign_props rl h a from ks = Inr h'"
  | (copy) v h1 where "own_enumerable rl h from k" and "get_v rl h from k = Inr v"
      and "set_prop rl h a k v = Inr h1" and "assign_props rl h1 a from ks = Inr h'"
proof (cases "own_enumerable rl h from k")
  case False
  from assms have "assign_props rl h a from ks = Inr h'"
    by (simp only: assign_props_skip [OF False])
  with False show ?thesis by (rule skip)
next
  case True
  from assms have "ebind (get_v rl h from k) (\<lambda>v.
       ebind (set_prop rl h a k v) (\<lambda>h1. assign_props rl h1 a from ks)) = Inr h'"
    by (simp only: assign_props_copy [OF True])
  then obtain v h1 where "get_v rl h from k = Inr v" and "set_prop rl h a k v = Inr h1"
    and "assign_props rl h1 a from ks = Inr h'"
    by (auto simp: ebind_eq_Inr)
  with True show ?thesis by (rule copy)
qed

lemma annotate_method_step:
  assumes "annotate_method rl h C m e (s # rest) = Inr h'"
  obtains pr f v h1 where "get_v rl h C ''prototype'' = Inr pr" and "get_v rl h pr m = Inr f"
    and "get_v rl h e s = Inr v" and "put_v rl h f s v = Inr h1"
    and "annotate_method rl h1 C m e rest = Inr h'"
  using assms by (auto simp: ebind_eq_Inr)

lemma annotate_methods_step:
  assumes "annotate_methods rl h C config (k # rest) = Inr h'"
  obtains (skip) pr f where "get_v rl h C ''prototype'' = Inr pr" and "get_v rl h pr k = Inr f"
      and "typeof h f \<noteq> ''function''" and "annotate_methods rl h C config rest = Inr h'"
  | (enter) pr f e h1 where "get_v rl h C ''prototype'' = Inr pr" and "get_v rl h pr k = Inr f"
      and "typeof h f = ''function''" and "get_v rl h config k = Inr e"
      and "annotate_method rl h C k e (for_in_keys rl h e) = Inr h1"
      and "annotate_methods rl h1 C config rest = Inr h'"
proof -
  from assms obtain pr f where pr: "get_v rl h C ''prototype'' = Inr pr"
    and f: "get_v rl h pr k = Inr f"
    and body: "(if typeof h f = ''function''
       then ebind (get_v rl h config k) (\<lambda>errors.
            ebind (annotate_method rl h C k errors (for_in_keys rl h errors)) (\<lambda>h'.
            annotate_methods rl h' C config rest))
       else annotate_methods rl h C config rest) = Inr h'"
    by (auto simp: ebind_eq_Inr)
  show ?thesis
  proof (cases "typeof h f = ''function''")
    case False
    with body have "annotate_methods rl h C config rest = Inr h'" by simp
    with pr f False show ?thesis by (rule skip)
  next
    case True
    with body obtain e h1 where "get_v rl h config k = Inr e"
      and "annotate_method rl h C k e (for_in_keys rl h e) = Inr h1"
      and "annotate_methods rl h1 C config rest = Inr h'"
      by (auto simp: ebind_eq_Inr)
    with pr f True show ?thesis by (rule enter)
  qed
qed

lemma typeof_function: "typeof h v = ''function'' \<longleftrightarrow> (\<exists>t. v = Ref t \<and> fn_of h (Ref t) \<noteq> None)"
  by (cases v) (auto simp: typeof_def)

lemma fn_of_valid: "fn_of h (Ref t) \<noteq> None \<Longrightarrow> t < length h \<and> call (h ! t) \<noteq> None"
  by (auto simp: fn_of_def lookup_obj_def split: if_splits)

subsection \<open>What every call keeps\<close>

text \<open>
  No round of a loop allocates an object or changes the function part or the
  extensibility of one.
\<close>

lemma assign_props_calls:
  "assign_props rl h a from ks = Inr h' \<Longrightarrow>
     length h' = length h \<and>
     (\<forall>b. call (h' ! b) = call (h ! b) \<and> extensible (h' ! b) = extensible (h ! b))"
proof (induction ks arbitrary: h)
  case Nil
  then show ?case by simp
next
  case (Cons k ks)
  from Cons.prems show ?case
  proof (cases rule: assign_props_step)
    case skip
    from Cons.IH [OF skip(2)] show ?thesis .
  next
    case (copy v h1)
    from Cons.IH [OF copy(4)] set_prop_frame(1-3) [OF copy(3)] show ?thesis by simp
  qed
qed

lemma annotate_method_calls:
  "annotate_method rl h C m e es = Inr h' \<Longrightarrow>
     length h' = length h \<and>
     (\<forall>b. call (h' ! b) = call (h ! b) \<and> extensible (h' ! b) = extensible (h ! b))"
proof (induction es arbitrary: h)
  case Nil
  then show ?case by simp
next
  case (Cons s rest)
  from Cons.prems obtain pr f v h1 where w: "put_v rl h f s v = Inr h1"
    and r: "annotate_method rl h1 C m e rest = Inr h'"
    by (rule annotate_method_step)
  from Cons.IH [OF r] put_v_frame(1-3) [OF w] show ?case by simp
qed

lemma annotate_methods_calls:
  "annotate_methods rl h C config ks = Inr h' \<Longrightarrow>
     length h' = length h \<and>
     (\<forall>b. call (h' ! b) = call (h ! b) \<and> extensible (h' ! b) = extensible (h ! b))"
proof (induction ks arbitrary: h)
  case Nil
  then show ?case by simp
next
  case (Cons k ks)
  from Cons.prems show ?case
  proof (cases rule: annotate_methods_step)
    case (skip pr f)
    from Cons.IH [OF skip(4)] show ?thesis .
  next
    case (enter pr f e h1)
    from Cons.IH [OF enter(6)] annotate_method_calls [OF enter(5)] show ?thesis by simp
  qed
qed

lemma withErrors_calls:
  assumes "withErrors rl h (Ref a) config = Inr (h', v)"
  shows "length h' = length h \<and>
     (\<forall>b. call (h' ! b) = call (h ! b) \<and> extensible (h' ! b) = extensible (h ! b))"
proof -
  from assms consider "annotate_methods rl h (Ref a) config (for_in_keys rl h config) = Inr h'"
    | "assign_props rl h a config (own_keys rl h config) = Inr h'"
    by (auto simp: withErrors_def Object_assign_def ebind_eq_Inr split: if_splits)
  then show ?thesis
  proof cases
    case 1
    then show ?thesis by (rule annotate_methods_calls)
  next
    case 2
    then show ?thesis by (rule assign_props_calls)
  qed
qed

subsection \<open>The discriminator\<close>

lemma first_word_class:
  assumes "take 6 s = ''class ''"
  shows "first_word s = ''class''"
proof -
  have "s = take 6 s @ drop 6 s" by simp
  with assms have "s = ''class '' @ drop 6 s" by simp
  then obtain r where "s = ''class '' @ r" ..
  then show ?thesis
    by (simp add: first_word_def ident_char_def)
qed

lemma isClass_non_function: "typeof h v \<noteq> ''function'' \<Longrightarrow> isClass rl h v = Inr (Bool False)"
  by (simp add: isClass_def)

lemma isClass_builtin_toString:
  assumes "fn_of h (Ref a) = Some me"
    and "get_v rl h (Ref a) ''toString'' = Inr f"
    and "fn_of h f = Some c"
    and "behaviour c = FunctionPrototypeToString"
  shows "isClass rl h (Ref a) = Inr (Bool (take 6 (source me) = ''class ''))"
  using assms
  by (simp add: isClass_def typeof_def invoke_def call_function_def run_def startsWith_def
      eval_nat_numeral)

lemma class_mode:
  assumes "isClass rl h target = Inr cv" and "to_boolean cv"
  shows "withErrors rl h target config =
    ebind (annotate_methods rl h target config (for_in_keys rl h config)) (\<lambda>h'. Inr (h', target))"
  using assms by (simp add: withErrors_def)

lemma callable_mode:
  assumes "isClass rl h (Ref a) = Inr cv" and "\<not> to_boolean cv"
  shows "withErrors rl h (Ref a) config =
      ebind (assign_props rl h a config (own_keys rl h config)) (\<lambda>h'. Inr (h', Ref a))"
  using assms by (simp add: withErrors_def Object_assign_def)

subsection \<open>What the copy loop leaves alone\<close>

lemma own_enumerable_map:
  "own_enumerable rl h v k \<longleftrightarrow> map_option enumerable (own_prop rl h v k) = Some True"
  by (auto simp: own_enumerable_def split: option.splits)

text \<open>
  A write to the target under a key that the source has keeps the own keys of the source
  and whether they are enumerable, also when source and target are the same object.
\<close>

lemma set_prop_own_enumerable:
  assumes w: "set_prop rl h a k v = Inr h'" and own: "own_prop rl h from k \<noteq> None"
  shows "own_enumerable rl h' from k' = own_enumerable rl h from k'"
proof -
  note len = set_prop_frame(1) [OF w]
  have "map_option enumerable (own_prop rl h' from k') = map_option enumerable (own_prop rl h from k')"
  proof (cases "from = Ref a")
    case True
    with own have a: "a < length h" and k: "map_of (props (h ! a)) k \<noteq> None"
      by (auto simp: own_prop_def own_obj_def lookup_obj_def split: if_splits)
    from w have "map_option enumerable (map_of (props (h' ! a)) k')
        = map_option enumerable (map_of (props (h ! a)) k')"
    proof (cases rule: set_prop_cases)
      case data
      then show ?thesis using k by (rule set_data_enumerable)
    next
      case (setter s)
      from run_setter_frame(4) [OF setter, of a] show ?thesis by simp
    qed
    with True a len show ?thesis by (simp add: own_prop_Ref)
  next
    case False
    show ?thesis
    proof (cases "from")
      case (Ref c)
      with False have "c \<noteq> a" by simp
      with set_prop_frame(4) [OF w] have "h' ! c = h ! c" by simp
      with Ref len show ?thesis
        by (simp add: own_prop_def own_obj_def lookup_obj_def)
    qed (simp_all add: own_prop_def own_obj_def)
  qed
  then show ?thesis by (simp add: own_enumerable_map)
qed

lemma assign_props_ignores:
  assumes "assign_props rl h a from ks = Inr h'" and "\<not> own_enumerable rl h from k"
  shows "map_of (props (h' ! a)) k = map_of (props (h ! a)) k"
  using assms
proof (induction ks arbitrary: h)
  case Nil
  then show ?case by simp
next
  case (Cons k0 ks)
  from Cons.prems(1) show ?case
  proof (cases rule: assign_props_step)
    case skip
    from Cons.IH [OF skip(2) Cons.prems(2)] show ?thesis .
  next
    case (copy v h1)
    from copy(1) Cons.prems(2) have ne: "k \<noteq> k0" by auto
    from copy(1) have "own_prop rl h from k0 \<noteq> None"
      by (auto simp: own_enumerable_def split: option.splits)
    from set_prop_own_enumerable [OF copy(3) this, of k] Cons.prems(2)
    have "\<not> own_enumerable rl h1 from k" by simp
    from Cons.IH [OF copy(4) this] have "map_of (props (h' ! a)) k = map_of (props (h1 ! a)) k" .
    also have "\<dots> = map_of (props (h ! a)) k"
      using copy(3) ne by (rule set_prop_frame(5))
    finally show ?thesis .
  qed
qed




subsection \<open>Prototype chains\<close>

lemma ends_cong:
  assumes "length h' = length h"
    and "\<And>b. b \<in> set (chain n h x) \<Longrightarrow> proto (h' ! b) = proto (h ! b)"
  shows "ends n h' x = ends n h x"
  using assms(2)
proof (induction n arbitrary: x)
  case 0
  show ?case by simp
next
  case (Suc n)
  show ?case
  proof (cases x)
    case None
    then show ?thesis by simp
  next
    case (Some a)
    show ?thesis
    proof (cases "a < length h")
      case True
      with Some have in_chain: "a \<in> set (chain (Suc n) h x)"
        by (simp add: lookup_obj_def)
      from Suc.prems [OF this] have pr: "proto (h' ! a) = proto (h ! a)" .
      have "ends n h' (proto (h ! a)) = ends n h (proto (h ! a))"
      proof (rule Suc.IH)
        fix b assume "b \<in> set (chain n h (proto (h ! a)))"
        with True Some have "b \<in> set (chain (Suc n) h x)"
          by (simp add: lookup_obj_def)
        then show "proto (h' ! b) = proto (h ! b)" by (rule Suc.prems)
      qed
      with True Some pr assms(1) show ?thesis
        by (simp add: lookup_obj_def)
    next
      case False
      with Some assms(1) show ?thesis
        by (simp add: lookup_obj_def)
    qed
  qed
qed

lemma ends_mono: "ends n h x \<Longrightarrow> ends (Suc n) h x"
proof (induction n arbitrary: x)
  case 0
  then show ?case by simp
next
  case (Suc n)
  then show ?case by (cases x) (auto split: option.splits)
qed

lemma ends_chain_pred: "ends (Suc n) h x \<Longrightarrow> chain n h x = chain (Suc n) h x"
proof (induction n arbitrary: x)
  case 0
  then show ?case by (cases x) (auto split: option.splits)
next
  case (Suc n)
  then show ?case by (cases x) (auto split: option.splits)
qed

lemma ends_chain_fuel: "ends n h x \<Longrightarrow> n \<le> m \<Longrightarrow> chain m h x = chain n h x"
proof (induction n arbitrary: x m)
  case 0
  then show ?case by simp
next
  case (Suc n)
  from Suc.prems(2) obtain m' where m: "m = Suc m'" "n \<le> m'"
    by (cases m) auto
  show ?case
  proof (cases x)
    case None
    with m show ?thesis by simp
  next
    case (Some a)
    with Suc.prems(1) obtain ob where ob: "lookup_obj h a = Some ob" "ends n h (proto ob)"
      by (auto split: option.splits)
    with Suc.IH [OF ob(2) m(2)] Some m show ?thesis by simp
  qed
qed

lemma ends_chain_append: "ends n h x \<Longrightarrow> chain m (h @ ys) x = chain m h x"
proof (induction n arbitrary: x m)
  case 0
  then show ?case by simp
next
  case (Suc n)
  show ?case
  proof (cases m)
    case 0
    then show ?thesis by simp
  next
    case m: (Suc m')
    show ?thesis
    proof (cases x)
      case None
      with m show ?thesis by simp
    next
      case (Some a)
      with Suc.prems obtain ob where ob: "lookup_obj h a = Some ob" "ends n h (proto ob)"
        by (auto split: option.splits)
      then have "lookup_obj (h @ ys) a = Some ob"
        by (auto simp: lookup_obj_def nth_append split: if_splits)
      with Suc.IH [OF ob(2)] ob Some m show ?thesis by simp
    qed
  qed
qed

lemma chain_objs_unchanged:
  assumes "length h' = length h"
    and "\<And>b. b \<in> set (chain (length h) h x) \<Longrightarrow> h' ! b = h ! b"
  shows "chain_objs h' x = chain_objs h x"
proof -
  have "chain (length h) h' x = chain (length h) h x"
    using assms(1) by (rule chain_cong) (simp add: assms(2))
  moreover have "map (\<lambda>b. h' ! b) (chain (length h) h x) = map (\<lambda>b. h ! b) (chain (length h) h x)"
    by (rule map_cong [OF refl]) (rule assms(2))
  ultimately show ?thesis
    by (simp add: chain_objs_def assms(1))
qed

lemma chain_objs_append:
  assumes "ends (length h) h x"
  shows "chain_objs (h @ ys) x = chain_objs h x"
proof -
  have "chain (length (h @ ys)) (h @ ys) x = chain (length (h @ ys)) h x"
    using assms by (rule ends_chain_append)
  also have "\<dots> = chain (length h) h x"
    using assms by (rule ends_chain_fuel) simp
  finally have ch: "chain (length (h @ ys)) (h @ ys) x = chain (length h) h x" .
  have "(h @ ys) ! b = h ! b" if "b \<in> set (chain (length h) h x)" for b
    using chain_bound [OF that] by (simp add: nth_append)
  then show ?thesis
    unfolding chain_objs_def ch by simp
qed

text \<open>An object that has no own property \<open>k\<close> finds \<open>k\<close> where its prototype finds it.\<close>

lemma inherits_find:
  assumes i: "i < length h" and pr: "proto (h ! i) = Some p"
    and own: "map_of (props (h ! i)) k = None" and e: "ends (length h) h (Some p)"
  shows "find_prop (chain_objs h (Some i)) k = find_prop (chain_objs h (Some p)) k"
proof -
  from i obtain n where n: "length h = Suc n" by (cases "length h") auto
  with e have "chain n h (Some p) = chain (Suc n) h (Some p)"
    by (simp add: ends_chain_pred)
  with i pr own n show ?thesis
    by (simp add: chain_objs_Some_valid) (simp add: chain_objs_def)
qed



subsection \<open>Changes confined to one function object\<close>

text \<open>
  The class branch writes to function objects only. Such a write leaves a chain of
  ordinary objects, and what is read through it, as it was.
\<close>

lemma plain_chain_not_function:
  "plain_chain h a \<Longrightarrow> b \<in> set (chain (length h) h (Some a)) \<Longrightarrow> fn_of h (Ref b) = None"
  by (auto simp: plain_chain_def list_all_iff fn_of_def lookup_obj_def)

lemma plain_chain_objs_kept:
  assumes len: "length h' = length h" and other: "\<And>b. b \<noteq> t \<Longrightarrow> h' ! b = h ! b"
    and t: "fn_of h (Ref t) \<noteq> None" and pl: "plain_chain h i"
  shows "chain_objs h' (Some i) = chain_objs h (Some i)"
proof (rule chain_objs_unchanged [OF len])
  fix b assume "b \<in> set (chain (length h) h (Some i))"
  with pl have "fn_of h (Ref b) = None" by (rule plain_chain_not_function)
  with t have "b \<noteq> t" by auto
  then show "h' ! b = h ! b" by (rule other)
qed

lemma plain_chain_kept:
  assumes len: "length h' = length h" and other: "\<And>b. b \<noteq> t \<Longrightarrow> h' ! b = h ! b"
    and t: "fn_of h (Ref t) \<noteq> None" and pl: "plain_chain h i"
  shows "plain_chain h' i"
proof -
  have same: "h' ! b = h ! b" if "b \<in> set (chain (length h) h (Some i))" for b
  proof -
    from pl that have "fn_of h (Ref b) = None" by (rule plain_chain_not_function)
    with t have "b \<noteq> t" by auto
    then show ?thesis by (rule other)
  qed
  have ch: "chain (length h) h' (Some i) = chain (length h) h (Some i)"
    using len by (rule chain_cong) (simp add: same)
  have en: "ends (length h) h' (Some i) = ends (length h) h (Some i)"
    using len by (rule ends_cong) (simp add: same)
  from pl show ?thesis
    by (simp add: plain_chain_def len ch en list_all_iff same)
qed

lemma plain_value_kept:
  assumes "length h' = length h" and "\<And>b. b \<noteq> t \<Longrightarrow> h' ! b = h ! b"
    and "fn_of h (Ref t) \<noteq> None" and "plain_value rl h v"
  shows "plain_value rl h' v"
  using assms(4) plain_chain_kept [OF assms(1-3)]
  by (cases v) (auto simp: plain_value_def split: option.splits)

lemma plain_objs_of_kept:
  assumes len: "length h' = length h" and other: "\<And>b. b \<noteq> t \<Longrightarrow> h' ! b = h ! b"
    and t: "fn_of h (Ref t) \<noteq> None" and pl: "plain_value rl h v"
  shows "objs_of rl h' v = objs_of rl h v"
proof (cases "proto (wrapper rl v)")
  case None
  with pl plain_chain_objs_kept [OF len other t] show ?thesis
    by (cases v) (simp_all add: objs_of_def plain_value_def chain_objs_def chain_None)
next
  case (Some x)
  with pl plain_chain_objs_kept [OF len other t] show ?thesis
    by (cases v) (simp_all add: objs_of_def plain_value_def)
qed

lemma plain_reads_kept:
  assumes "length h' = length h" and "\<And>b. b \<noteq> t \<Longrightarrow> h' ! b = h ! b"
    and "fn_of h (Ref t) \<noteq> None" and "plain_value rl h v"
  shows "for_in_keys rl h' v = for_in_keys rl h v"
    and "data_key rl h' v k = data_key rl h v k"
    and "data_key rl h v k \<Longrightarrow> get_v rl h' v k = get_v rl h v k"
proof -
  note eq = plain_objs_of_kept [OF assms]
  show "for_in_keys rl h' v = for_in_keys rl h v"
    by (simp add: for_in_keys_def eq)
  show "data_key rl h' v k = data_key rl h v k"
    by (simp add: data_key_def eq)
  show "data_key rl h v k \<Longrightarrow> get_v rl h' v k = get_v rl h v k"
    by (rule lookup_cong) (simp_all add: eq)
qed

lemma plain_chain_value: "plain_chain h i \<Longrightarrow> plain_value rl h (Ref i)"
  by (simp add: plain_value_def)

text \<open>The method table of a class of the usual shape.\<close>

lemma class_shape_prototype: "class_shape h c p \<Longrightarrow> get_v rl h (Ref c) ''prototype'' = Inr (Ref p)"
  by (auto simp: class_shape_def split: option.splits dest: own_prop_Ref_get [where rl = rl])


lemma class_shape_plain: "class_shape h c p \<Longrightarrow> plain_chain h p"
  by (simp add: class_shape_def split: option.splits)

text \<open>No write changes a read-only data property.\<close>

lemma set_prop_readonly_kept:
  assumes w: "set_prop rl h a k v = Inr h'"
    and q: "map_of (props (h ! b)) k' = Some q" "\<not> writable q"
  shows "map_of (props (h' ! b)) k' = Some q"
proof (cases "b = a \<and> k' = k")
  case True
  from w show ?thesis
  proof (cases rule: set_prop_cases)
    case data
    from set_data_Inr [OF data] have "a < length h" "can_set h a k" by simp_all
    with True q show ?thesis
      by (simp add: can_set_def lookup_obj_def)
  next
    case (setter s)
    from run_setter_frame(4) [OF setter, of b] q show ?thesis by simp
  qed
next
  case False
  then consider "b \<noteq> a" | "k' \<noteq> k" by blast
  then show ?thesis
  proof cases
    case 1
    with set_prop_frame(4) [OF w] q show ?thesis by simp
  next
    case 2
    with set_prop_frame(5) [OF w] q show ?thesis by simp
  qed
qed

lemma set_prop_class_shape:
  assumes w: "set_prop rl h t k v = Inr h'" and t: "fn_of h (Ref t) \<noteq> None"
    and cs: "class_shape h c p"
  shows "class_shape h' c p" and "chain_objs h' (Some p) = chain_objs h (Some p)"
proof -
  note len = set_prop_frame(1) [OF w]
  have other: "h' ! b = h ! b" if "b \<noteq> t" for b
    using set_prop_frame(4) [OF w that] .
  from cs obtain q where c: "c < length h" and q: "map_of (props (h ! c)) ''prototype'' = Some q"
      "is_data q" "pval q = Ref p" "\<not> writable q" and pl: "plain_chain h p"
    by (auto simp: class_shape_def split: option.splits)
  from set_prop_readonly_kept [OF w q(1) q(4)]
  have "map_of (props (h' ! c)) ''prototype'' = Some q" .
  moreover note plain_chain_kept [OF len other t pl] q(2,3,4)
  ultimately show "class_shape h' c p" using c len
    by (simp add: class_shape_def)
  show "chain_objs h' (Some p) = chain_objs h (Some p)"
    using len other t pl by (rule plain_chain_objs_kept)
qed

lemma method_read_kept:
  assumes "chain_objs h' (Some p) = chain_objs h (Some p)" and "data_key rl h (Ref p) m"
  shows "data_key rl h' (Ref p) m" and "get_v rl h' (Ref p) m = get_v rl h (Ref p) m"
proof -
  from assms(1) have eq: "find_prop (objs_of rl h' (Ref p)) m = find_prop (objs_of rl h (Ref p)) m"
    by (simp add: objs_of_def)
  from eq assms(2) show "data_key rl h' (Ref p) m" by (rule lookup_cong(1))
  from eq assms(2) show "get_v rl h' (Ref p) m = get_v rl h (Ref p) m" by (rule lookup_cong(2))
qed

text \<open>
  The inner loop of the class branch for a class of the usual shape, whatever the writes
  do: no object but the method changes, and the method table is read as before.
\<close>

lemma annotate_method_frame:
  assumes "annotate_method rl h (Ref c) m e es = Inr h'"
    and "class_shape h c p" and "data_key rl h (Ref p) m"
    and "get_v rl h (Ref p) m = Inr (Ref t)" and "fn_of h (Ref t) \<noteq> None"
  shows "(\<forall>b. b \<noteq> t \<longrightarrow> h' ! b = h ! b) \<and> class_shape h' c p \<and>
         chain_objs h' (Some p) = chain_objs h (Some p)"
  using assms
proof (induction es arbitrary: h)
  case Nil
  then show ?case by simp
next
  case (Cons s rest)
  note cs = \<open>class_shape h c p\<close> and mk = \<open>data_key rl h (Ref p) m\<close>
    and mt = \<open>get_v rl h (Ref p) m = Inr (Ref t)\<close> and t = \<open>fn_of h (Ref t) \<noteq> None\<close>
  from Cons.prems(1) obtain pr f v h1 where pr: "get_v rl h (Ref c) ''prototype'' = Inr pr"
    and f: "get_v rl h pr m = Inr f" and w0: "put_v rl h f s v = Inr h1"
    and rest: "annotate_method rl h1 (Ref c) m e rest = Inr h'"
    by (rule annotate_method_step)
  from pr class_shape_prototype [OF cs, of rl] have "pr = Ref p" by simp
  with f mt have "f = Ref t" by simp
  with w0 have w: "set_prop rl h t s v = Inr h1" by (simp add: put_v_def)
  note len = set_prop_frame(1) [OF w]
  have other: "h1 ! b = h ! b" if "b \<noteq> t" for b
    using set_prop_frame(4) [OF w that] .
  have cs1: "class_shape h1 c p" and ch1: "chain_objs h1 (Some p) = chain_objs h (Some p)"
    using set_prop_class_shape [OF w t cs] by simp_all
  have mk1: "data_key rl h1 (Ref p) m" and mt1: "get_v rl h1 (Ref p) m = Inr (Ref t)"
    using method_read_kept [OF ch1 mk] mt by simp_all
  have t1: "fn_of h1 (Ref t) \<noteq> None"
    using t fn_of_cong [OF len set_prop_frame(2) [OF w], of "Ref t"] by simp
  from Cons.IH [OF rest cs1 mk1 mt1 t1] other ch1 show ?case by auto
qed

text \<open>The outer loop, likewise: no object changes but the methods that the config names.\<close>

lemma annotate_methods_frame:
  assumes "annotate_methods rl h (Ref c) config ks = Inr h'" and "class_shape h c p"
    and "\<forall>k\<in>set ks. data_key rl h (Ref p) k"
  shows "(\<forall>b. b \<notin> targets rl h p ks \<longrightarrow> h' ! b = h ! b) \<and> class_shape h' c p \<and>
         chain_objs h' (Some p) = chain_objs h (Some p)"
  using assms
proof (induction ks arbitrary: h)
  case Nil
  then show ?case by simp
next
  case (Cons k ks)
  note cs = \<open>class_shape h c p\<close>
  from Cons.prems(3) have mk: "data_key rl h (Ref p) k" and mks: "\<forall>k\<in>set ks. data_key rl h (Ref p) k"
    by simp_all
  have sub: "targets rl h p ks \<subseteq> targets rl h p (k # ks)"
    by (auto simp: targets_def)
  from Cons.prems(1) show ?case
  proof (cases rule: annotate_methods_step)
    case (skip pr f)
    from Cons.IH [OF skip(4) cs mks] sub show ?thesis by auto
  next
    case (enter pr f e h1)
    from enter(1) class_shape_prototype [OF cs, of rl] have "pr = Ref p" by simp
    with enter(2) have m: "get_v rl h (Ref p) k = Inr f" by simp
    from enter(3) obtain t where t: "f = Ref t" "fn_of h (Ref t) \<noteq> None"
      by (auto simp: typeof_function)
    from annotate_method_frame [OF enter(5) cs mk m [unfolded t(1)] t(2)]
    have other: "\<And>b. b \<noteq> t \<Longrightarrow> h1 ! b = h ! b" and cs1: "class_shape h1 c p"
      and ch1: "chain_objs h1 (Some p) = chain_objs h (Some p)"
      by blast+
    from annotate_method_calls [OF enter(5)]
    have len: "length h1 = length h" and calls: "\<And>b. call (h1 ! b) = call (h ! b)"
      by simp_all
    have mks1: "\<forall>k\<in>set ks. data_key rl h1 (Ref p) k"
      using mks method_read_kept(1) [OF ch1] by blast
    have "targets rl h1 p ks = targets rl h p ks"
      using mks method_read_kept(2) [OF ch1] fn_of_cong [OF len calls]
      by (auto simp: targets_def)
    with Cons.IH [OF enter(6) cs1 mks1]
    have IH: "\<forall>b. b \<notin> targets rl h p ks \<longrightarrow> h' ! b = h1 ! b" "class_shape h' c p"
      "chain_objs h' (Some p) = chain_objs h1 (Some p)"
      by simp_all
    have tt: "t \<in> targets rl h p (k # ks)"
      using m t by (auto simp: targets_def)
    have "h' ! b = h ! b" if b: "b \<notin> targets rl h p (k # ks)" for b
    proof -
      from b tt have "b \<noteq> t" by auto
      moreover from b sub have "b \<notin> targets rl h p ks" by auto
      ultimately show ?thesis using IH(1) other by simp
    qed
    with IH(2,3) ch1 show ?thesis by simp
  qed
qed

subsection \<open>A write to a data property and the reads and writes that follow\<close>

lemma find_prop_map_cong:
  "(\<And>b. b \<in> set cs \<Longrightarrow> map_of (props (h' ! b)) k = map_of (props (h ! b)) k) \<Longrightarrow>
     find_prop (map (\<lambda>b. h' ! b) cs) k = find_prop (map (\<lambda>b. h ! b) cs) k"
  by (induction cs) (simp_all split: option.splits)

text \<open>A write under key \<open>k\<close> leaves what is found under another key as it was.\<close>

lemma set_data_find_other_key:
  assumes "set_data h a k v = Inr h'" and "k' \<noteq> k"
  shows "find_prop (chain_objs h' x) k' = find_prop (chain_objs h x) k'"
    and "find_prop (tl (chain_objs h' x)) k' = find_prop (tl (chain_objs h x)) k'"
proof -
  from assms(1) have sk: "same_skeleton h h'" by (rule set_data_skeleton)
  then have len: "length h' = length h" by (simp add: same_skeleton_def)
  have ch: "chain (length h') h' x = chain (length h) h x"
    using sk len by (simp add: same_skeleton_chain)
  have key: "\<And>b. map_of (props (h' ! b)) k' = map_of (props (h ! b)) k'"
    using assms by (rule set_data_other_key)
  show "find_prop (chain_objs h' x) k' = find_prop (chain_objs h x) k'"
    unfolding chain_objs_def ch by (rule find_prop_map_cong) (rule key)
  show "find_prop (tl (chain_objs h' x)) k' = find_prop (tl (chain_objs h x)) k'"
    unfolding chain_objs_def ch map_tl [symmetric] by (rule find_prop_map_cong) (rule key)
qed

lemma set_data_lookup_other_key:
  assumes "set_data h a k v = Inr h'" and "k' \<noteq> k"
  shows "find_prop (objs_of rl h' x) k' = find_prop (objs_of rl h x) k'"
  using set_data_find_other_key(1) [OF assms]
  by (cases x) (simp_all add: objs_of_def split: option.splits)

lemma set_data_can_set_other_key:
  assumes "set_data h a k v = Inr h'" and "k' \<noteq> k"
  shows "can_set h' b k' \<longleftrightarrow> can_set h b k'"
proof -
  from assms(1) have sk: "same_skeleton h h'" by (rule set_data_skeleton)
  show ?thesis
  proof (cases "b < length h")
    case True
    with sk have "b < length h'" "extensible (h' ! b) = extensible (h ! b)"
      by (simp_all add: same_skeleton_def)
    moreover have "map_of (props (h' ! b)) k' = map_of (props (h ! b)) k'"
      using assms by (rule set_data_other_key)
    moreover note set_data_find_other_key(2) [OF assms, of "Some b"]
    ultimately show ?thesis using True
      by (simp add: can_set_def lookup_obj_def split: option.splits)
  next
    case False
    with sk show ?thesis
      by (simp add: can_set_def lookup_obj_def same_skeleton_def)
  qed
qed

lemma set_data_can_set_same:
  assumes "set_data h a k v = Inr h'"
  shows "can_set h' a k"
proof -
  from set_data_own [OF assms] obtain p where "map_of (props (h' ! a)) k = Some p" "writable p"
    by blast
  moreover from set_data_Inr [OF assms] set_data_skeleton [OF assms] have "a < length h'"
    by (simp add: same_skeleton_def)
  ultimately show ?thesis
    by (simp add: can_set_def lookup_obj_def)
qed

lemma set_data_data_key_same:
  assumes "set_data h a k v = Inr h'" and "data_key rl h (Ref a) k'"
  shows "data_key rl h' (Ref a) k'"
proof (cases "k' = k")
  case True
  with set_data_can_set_same [OF assms(1)] show ?thesis
    by (simp add: can_set_data_key)
next
  case False
  with assms(1) have "find_prop (objs_of rl h' (Ref a)) k' = find_prop (objs_of rl h (Ref a)) k'"
    by (rule set_data_lookup_other_key)
  then show ?thesis using assms(2) by (rule lookup_cong(1))
qed

text \<open>
  Writing under \<open>k\<close> the value that \<open>e[k]\<close> has leaves the reads of \<open>e\<close> as they were, also
  when the object written to is on the prototype chain of \<open>e\<close>.
\<close>

lemma find_prop_after_same_write:
  assumes w: "set_data h t k v = Inr h'"
    and r: "case find_prop (map (\<lambda>b. h ! b) cs) k of
              None \<Rightarrow> v = Undefined | Some p \<Rightarrow> is_data p \<and> pval p = v"
  shows "case find_prop (map (\<lambda>b. h' ! b) cs) k of
           None \<Rightarrow> v = Undefined | Some p \<Rightarrow> is_data p \<and> pval p = v"
  using r
proof (induction cs)
  case Nil
  then show ?case by simp
next
  case (Cons b cs)
  show ?case
  proof (cases "b = t")
    case True
    with set_data_own [OF w] show ?thesis by auto
  next
    case False
    with set_data_other [OF w] have "h' ! b = h ! b" by simp
    with Cons show ?thesis
      by (cases "map_of (props (h ! b)) k") simp_all
  qed
qed

lemma lookup_after_same_write:
  assumes w: "set_data h t k v = Inr h'"
    and r: "case find_prop (objs_of rl h e) k of
              None \<Rightarrow> v = Undefined | Some p \<Rightarrow> is_data p \<and> pval p = v"
  shows "case find_prop (objs_of rl h' e) k of
           None \<Rightarrow> v = Undefined | Some p \<Rightarrow> is_data p \<and> pval p = v"
proof -
  from w have sk: "same_skeleton h h'" by (rule set_data_skeleton)
  have ch: "chain (length h') h' y = chain (length h) h y" for y
    using sk by (simp add: same_skeleton_chain same_skeleton_len)
  note fp = find_prop_after_same_write [OF w]
  show ?thesis
  proof (cases e)
    case (Ref a)
    with r fp [of "chain (length h) h (Some a)"] show ?thesis
      by (simp add: objs_of_def chain_objs_def ch)
  next
    case Undefined
    with r show ?thesis by (simp add: objs_of_def)
  next
    case Null
    with r show ?thesis by (simp add: objs_of_def)
  next
    case (Bool b)
    with r fp [of "chain (length h) h (proto (wrapper rl e))"] show ?thesis
      by (cases "map_of (props (wrapper rl e)) k")
        (simp_all add: objs_of_def chain_objs_def ch)
  next
    case (Num n)
    with r fp [of "chain (length h) h (proto (wrapper rl e))"] show ?thesis
      by (cases "map_of (props (wrapper rl e)) k")
        (simp_all add: objs_of_def chain_objs_def ch)
  next
    case (Str z)
    with r fp [of "chain (length h) h (proto (wrapper rl e))"] show ?thesis
      by (cases "map_of (props (wrapper rl e)) k")
        (simp_all add: objs_of_def chain_objs_def ch)
  qed
qed

lemma set_data_source_reads:
  assumes w: "set_data h t k v = Inr h'" and g: "get_v rl h e k = Inr v"
    and dk: "data_key rl h e k" and ds: "data_key rl h e s"
  shows "data_key rl h' e s" and "get_v rl h' e s = get_v rl h e s"
proof -
  from g have e: "e \<noteq> Undefined" "e \<noteq> Null"
    by (auto simp: get_v_def split: if_splits)
  have "data_key rl h' e s \<and> get_v rl h' e s = get_v rl h e s"
  proof (cases "s = k")
    case False
    with w have "find_prop (objs_of rl h' e) s = find_prop (objs_of rl h e) s"
      by (rule set_data_lookup_other_key)
    from lookup_cong [OF this ds] show ?thesis by simp
  next
    case True
    from g dk e have "case find_prop (objs_of rl h e) k of
        None \<Rightarrow> v = Undefined | Some p \<Rightarrow> is_data p \<and> pval p = v"
      by (auto simp: get_v_data data_key_def split: option.splits)
    from lookup_after_same_write [OF w this]
    have r: "case find_prop (objs_of rl h' e) k of
        None \<Rightarrow> v = Undefined | Some p \<Rightarrow> is_data p \<and> pval p = v" .
    then have dk': "data_key rl h' e k"
      by (auto simp: data_key_def split: option.splits)
    with r e have "get_v rl h' e k = Inr v"
      by (auto simp: get_v_data split: option.splits)
    with dk' g True show ?thesis by simp
  qed
  then show "data_key rl h' e s" and "get_v rl h' e s = get_v rl h e s" by simp_all
qed

text \<open>
  Writing to the target the value just read from the source leaves the source's own
  properties as they were, also when source and target are the same object.
\<close>

lemma set_data_own_prop_source:
  assumes w: "set_data h a k (pval p) = Inr h'" and own: "own_prop rl h from k = Some p"
  shows "own_prop rl h' from k' = own_prop rl h from k'"
proof (cases "from = Ref a")
  case False
  show ?thesis
  proof (cases "from")
    case (Ref c)
    with False have "c \<noteq> a" by simp
    with set_data_other [OF w] have "h' ! c = h ! c" by simp
    moreover from set_data_skeleton [OF w] have "length h' = length h"
      by (simp add: same_skeleton_def)
    ultimately show ?thesis using Ref
      by (simp add: own_prop_def own_obj_def lookup_obj_def)
  qed (simp_all add: own_prop_def own_obj_def)
next
  case True
  from set_data_Inr [OF w] obtain q where a: "a < length h"
    and q: "is_data q" "pval q = pval p" "writable q"
       "enumerable q \<longleftrightarrow> (case map_of (props (h ! a)) k of None \<Rightarrow> True | Some r \<Rightarrow> enumerable r)"
    and h': "h' = h[a := (h ! a)\<lparr>props := AList.update k q (props (h ! a))\<rparr>]"
    and cs: "can_set h a k"
    by blast
  from own True a have p: "map_of (props (h ! a)) k = Some p"
    by (simp add: own_prop_def own_obj_def lookup_obj_def)
  with cs a have "writable p"
    by (simp add: can_set_def lookup_obj_def)
  with q p have "q = p"
    by (cases p; cases q) simp_all
  with h' p a have "map_of (props (h' ! a)) k' = map_of (props (h ! a)) k'"
    by (auto simp: update_conv')
  moreover from h' have "length h' = length h" by simp
  ultimately show ?thesis using True a
    by (simp add: own_prop_def own_obj_def lookup_obj_def)
qed

text \<open>A write that could be made can still be made after any other write.\<close>

lemma find_prop_writable_after:
  assumes w: "set_data h t s v = Inr h'"
    and ok: "case find_prop (map (\<lambda>b. h ! b) cs) s of None \<Rightarrow> True | Some q \<Rightarrow> writable q"
  shows "case find_prop (map (\<lambda>b. h' ! b) cs) s of None \<Rightarrow> True | Some q \<Rightarrow> writable q"
  using ok
proof (induction cs)
  case Nil
  then show ?case by simp
next
  case (Cons b cs)
  show ?case
  proof (cases "b = t")
    case True
    with set_data_own [OF w] show ?thesis by auto
  next
    case False
    with set_data_other [OF w] have "h' ! b = h ! b" by simp
    with Cons show ?thesis
      by (cases "map_of (props (h ! b)) s") simp_all
  qed
qed

lemma set_data_can_set_kept:
  assumes w: "set_data h t s0 v = Inr h'" and cs: "can_set h t' s"
  shows "can_set h' t' s"
proof (cases "s = s0")
  case False
  with set_data_can_set_other_key [OF w, of s t'] cs show ?thesis by simp
next
  case True
  show ?thesis
  proof (cases "t' = t")
    case True
    with \<open>s = s0\<close> set_data_can_set_same [OF w] show ?thesis by simp
  next
    case False
    from w have sk: "same_skeleton h h'" by (rule set_data_skeleton)
    from cs have v: "t' < length h" by (rule can_set_valid)
    with sk have v': "t' < length h'" and ext: "extensible (h' ! t') = extensible (h ! t')"
      by (simp_all add: same_skeleton_def)
    from False set_data_other [OF w] have same: "h' ! t' = h ! t'" by simp
    have ch: "chain (length h') h' y = chain (length h) h y" for y
      using sk by (simp add: same_skeleton_chain same_skeleton_len)
    show ?thesis
    proof (cases "map_of (props (h ! t')) s")
      case (Some q)
      with cs v v' same show ?thesis
        by (simp add: can_set_def lookup_obj_def)
    next
      case None
      with cs v have e: "extensible (h ! t')"
        and ok: "case find_prop (tl (chain_objs h (Some t'))) s of None \<Rightarrow> True
          | Some q \<Rightarrow> writable q"
        by (auto simp: can_set_def lookup_obj_def split: option.splits)
      from ok have "case find_prop (map (\<lambda>b. h ! b) (tl (chain (length h) h (Some t')))) s of
          None \<Rightarrow> True | Some q \<Rightarrow> writable q"
        by (simp add: chain_objs_def map_tl)
      from find_prop_writable_after [OF w [unfolded \<open>s = s0\<close> [symmetric]] this]
      have "case find_prop (tl (chain_objs h' (Some t'))) s of None \<Rightarrow> True
          | Some q \<Rightarrow> writable q"
        by (simp add: chain_objs_def map_tl ch)
      with None e v' same show ?thesis
        by (auto simp: can_set_def lookup_obj_def split: option.splits)
    qed
  qed
qed

subsection \<open>The inner loop of the class branch when every slot is a data property\<close>

lemma annotate_method_round:
  assumes cs: "class_shape h c p" and mt: "get_v rl h (Ref p) m = Inr (Ref t)"
    and ek: "data_key rl h e s" and e: "e \<noteq> Undefined" "e \<noteq> Null"
    and tk: "data_key rl h (Ref t) s"
  shows "\<exists>v. get_v rl h e s = Inr v \<and>
     annotate_method rl h (Ref c) m e (s # rest) =
       ebind (set_data h t s v) (\<lambda>h1. annotate_method rl h1 (Ref c) m e rest)"
proof -
  from get_v_data [OF e ek] obtain v where v: "get_v rl h e s = Inr v" by blast
  with class_shape_prototype [OF cs, of rl] mt set_prop_data [OF tk] show ?thesis
    by (simp add: put_v_def)
qed

lemma annotate_method_post:
  assumes "annotate_method rl h (Ref c) m e es = Inr h'"
    and "class_shape h c p" and "data_key rl h (Ref p) m"
    and "get_v rl h (Ref p) m = Inr (Ref t)" and "fn_of h (Ref t) \<noteq> None"
    and "\<forall>s\<in>set es. data_key rl h e s" and "\<forall>s\<in>set es. data_key rl h (Ref t) s"
  shows "same_skeleton h h' \<and>
         (\<forall>k. k \<notin> set es \<longrightarrow> map_of (props (h' ! t)) k = map_of (props (h ! t)) k) \<and>
         (\<forall>s\<in>set es. \<exists>q. map_of (props (h' ! t)) s = Some q \<and> is_data q \<and> writable q
             \<and> get_v rl h e s = Inr (pval q)) \<and>
         (\<forall>s. data_key rl h e s \<longrightarrow> data_key rl h' e s \<and> get_v rl h' e s = get_v rl h e s) \<and>
         (\<forall>t' s. can_set h t' s \<longrightarrow> can_set h' t' s)"
  using assms
proof (induction es arbitrary: h)
  case Nil
  then show ?case by simp
next
  case (Cons s rest)
  note cs = \<open>class_shape h c p\<close> and mk = \<open>data_key rl h (Ref p) m\<close>
    and mt = \<open>get_v rl h (Ref p) m = Inr (Ref t)\<close> and t = \<open>fn_of h (Ref t) \<noteq> None\<close>
  from Cons.prems(6) have ek: "data_key rl h e s" and eks: "\<forall>s\<in>set rest. data_key rl h e s"
    by simp_all
  from Cons.prems(7) have tk: "data_key rl h (Ref t) s"
    and tks: "\<forall>s\<in>set rest. data_key rl h (Ref t) s"
    by simp_all
  from Cons.prems(1) obtain v0 where "get_v rl h e s = Inr v0"
    by (auto simp: ebind_eq_Inr)
  then have e: "e \<noteq> Undefined" "e \<noteq> Null"
    by (auto simp: get_v_def split: if_splits)
  from annotate_method_round [OF cs mt ek e tk, of rest] obtain v
    where v: "get_v rl h e s = Inr v"
      and eq: "annotate_method rl h (Ref c) m e (s # rest) =
        ebind (set_data h t s v) (\<lambda>h1. annotate_method rl h1 (Ref c) m e rest)"
    by blast
  from Cons.prems(1) [unfolded eq] obtain h1
    where w: "set_data h t s v = Inr h1"
      and rest: "annotate_method rl h1 (Ref c) m e rest = Inr h'"
    by (auto simp: ebind_eq_Inr)
  from w tk have w': "set_prop rl h t s v = Inr h1" by (simp add: set_prop_data)
  have sk1: "same_skeleton h h1" using w by (rule set_data_skeleton)
  have cs1: "class_shape h1 c p" and ch1: "chain_objs h1 (Some p) = chain_objs h (Some p)"
    using set_prop_class_shape [OF w' t cs] by simp_all
  have mk1: "data_key rl h1 (Ref p) m" and mt1: "get_v rl h1 (Ref p) m = Inr (Ref t)"
    using method_read_kept [OF ch1 mk] mt by simp_all
  have t1: "fn_of h1 (Ref t) \<noteq> None"
    using t same_skeleton_fn_of [OF sk1] by simp
  have src1: "data_key rl h1 e x \<and> get_v rl h1 e x = get_v rl h e x" if "data_key rl h e x" for x
    using set_data_source_reads [OF w v ek that] by simp
  have eks1: "\<forall>s\<in>set rest. data_key rl h1 e s"
    using eks src1 by blast
  have tks1: "\<forall>s\<in>set rest. data_key rl h1 (Ref t) s"
    using tks set_data_data_key_same [OF w] by blast
  note IH = Cons.IH [OF rest cs1 mk1 mt1 t1 eks1 tks1]
  from set_data_own [OF w] obtain q
    where q: "map_of (props (h1 ! t)) s = Some q" "is_data q" "pval q = v" "writable q"
    by blast
  have A1: "same_skeleton h h'"
    using sk1 IH by (blast intro: same_skeleton_trans)
  have A4: "\<forall>k. k \<notin> set (s # rest) \<longrightarrow> map_of (props (h' ! t)) k = map_of (props (h ! t)) k"
    using IH set_data_other_key [OF w] by auto
  have A5: "\<forall>s'\<in>set (s # rest). \<exists>q. map_of (props (h' ! t)) s' = Some q \<and> is_data q \<and> writable q
             \<and> get_v rl h e s' = Inr (pval q)"
  proof
    fix s' assume s': "s' \<in> set (s # rest)"
    show "\<exists>q. map_of (props (h' ! t)) s' = Some q \<and> is_data q \<and> writable q
        \<and> get_v rl h e s' = Inr (pval q)"
    proof (cases "s' \<in> set rest")
      case True
      with IH obtain q' where "map_of (props (h' ! t)) s' = Some q'" "is_data q'" "writable q'"
          "get_v rl h1 e s' = Inr (pval q')"
        by blast
      moreover from True eks src1 have "get_v rl h1 e s' = get_v rl h e s'" by blast
      ultimately show ?thesis by simp
    next
      case False
      with s' have "s' = s" by simp
      moreover from False IH have "map_of (props (h' ! t)) s' = map_of (props (h1 ! t)) s'"
        by blast
      ultimately show ?thesis using q v by simp
    qed
  qed
  have A6: "\<forall>x. data_key rl h e x \<longrightarrow> data_key rl h' e x \<and> get_v rl h' e x = get_v rl h e x"
  proof (intro allI impI)
    fix x assume x: "data_key rl h e x"
    from src1 [OF x] have "data_key rl h1 e x" "get_v rl h1 e x = get_v rl h e x" by simp_all
    moreover from this(1) IH have "data_key rl h' e x \<and> get_v rl h' e x = get_v rl h1 e x"
      by blast
    ultimately show "data_key rl h' e x \<and> get_v rl h' e x = get_v rl h e x" by simp
  qed
  have A8: "\<forall>t' s'. can_set h t' s' \<longrightarrow> can_set h' t' s'"
  proof (intro allI impI)
    fix t' s' assume "can_set h t' s'"
    with w have "can_set h1 t' s'" by (rule set_data_can_set_kept)
    with IH show "can_set h' t' s'" by blast
  qed
  from A1 A4 A5 A6 A8 show ?case by (intro conjI)
qed

text \<open>The inner loop completes exactly when every slot can be written.\<close>

lemma annotate_method_completes:
  assumes "class_shape h c p" and "data_key rl h (Ref p) m"
    and "get_v rl h (Ref p) m = Inr (Ref t)" and "fn_of h (Ref t) \<noteq> None"
    and "e \<noteq> Undefined" and "e \<noteq> Null"
    and "\<forall>s\<in>set es. data_key rl h e s" and "\<forall>s\<in>set es. data_key rl h (Ref t) s"
  shows "(\<exists>h'. annotate_method rl h (Ref c) m e es = Inr h') \<longleftrightarrow> (\<forall>s\<in>set es. can_set h t s)"
  using assms(1-4,7,8)
proof (induction es arbitrary: h)
  case Nil
  show ?case by simp
next
  case (Cons s rest)
  note cs = \<open>class_shape h c p\<close> and mk = \<open>data_key rl h (Ref p) m\<close>
    and mt = \<open>get_v rl h (Ref p) m = Inr (Ref t)\<close> and t = \<open>fn_of h (Ref t) \<noteq> None\<close>
  note e = assms(5,6)
  from Cons.prems(5) have ek: "data_key rl h e s" and eks: "\<forall>s\<in>set rest. data_key rl h e s"
    by simp_all
  from Cons.prems(6) have tk: "data_key rl h (Ref t) s"
    and tks: "\<forall>s\<in>set rest. data_key rl h (Ref t) s"
    by simp_all
  from annotate_method_round [OF cs mt ek e tk, of rest] obtain v
    where v: "get_v rl h e s = Inr v"
      and eq: "annotate_method rl h (Ref c) m e (s # rest) =
        ebind (set_data h t s v) (\<lambda>h1. annotate_method rl h1 (Ref c) m e rest)"
    by blast
  show ?case
  proof (cases "can_set h t s")
    case False
    then have "\<not> (\<exists>h1. set_data h t s v = Inr h1)"
      using set_data_Inr by blast
    with eq False show ?thesis
      by (auto simp: ebind_eq_Inr)
  next
    case True
    then obtain h1 where w: "set_data h t s v = Inr h1"
      using can_set_set_data by blast
    from w tk have w': "set_prop rl h t s v = Inr h1" by (simp add: set_prop_data)
    have cs1: "class_shape h1 c p" and ch1: "chain_objs h1 (Some p) = chain_objs h (Some p)"
      using set_prop_class_shape [OF w' t cs] by simp_all
    have mk1: "data_key rl h1 (Ref p) m" and mt1: "get_v rl h1 (Ref p) m = Inr (Ref t)"
      using method_read_kept [OF ch1 mk] mt by simp_all
    have t1: "fn_of h1 (Ref t) \<noteq> None"
      using t same_skeleton_fn_of [OF set_data_skeleton [OF w]] by simp
    have eks1: "\<forall>s\<in>set rest. data_key rl h1 e s"
      using eks set_data_source_reads(1) [OF w v ek] by blast
    have tks1: "\<forall>s\<in>set rest. data_key rl h1 (Ref t) s"
      using tks set_data_data_key_same [OF w] by blast
    have c1: "can_set h1 t s' \<longleftrightarrow> s' = s \<or> can_set h t s'" for s'
    proof (cases "s' = s")
      case True
      with set_data_can_set_same [OF w] show ?thesis by simp
    next
      case False
      with set_data_can_set_other_key [OF w, of s' t] show ?thesis by simp
    qed
    from eq w have "(\<exists>h'. annotate_method rl h (Ref c) m e (s # rest) = Inr h') \<longleftrightarrow>
        (\<exists>h'. annotate_method rl h1 (Ref c) m e rest = Inr h')"
      by simp
    also have "\<dots> \<longleftrightarrow> (\<forall>s'\<in>set rest. can_set h1 t s')"
      using cs1 mk1 mt1 t1 eks1 tks1 by (rule Cons.IH)
    also have "\<dots> \<longleftrightarrow> (\<forall>s'\<in>set (s # rest). can_set h t s')"
      using True by (auto simp: c1)
    finally show ?thesis .
  qed
qed

text \<open>
  The outer loop completes for a class of the usual shape and a config of ordinary
  objects with data properties when every slot can be written on its method.
\<close>

lemma annotate_methods_completes:
  assumes "class_shape h c p" and "plain_value rl h config"
    and "\<forall>k\<in>set ks. data_key rl h (Ref p) k \<and> data_key rl h config k \<and>
           (\<forall>t. get_v rl h (Ref p) k = Inr (Ref t) \<and> fn_of h (Ref t) \<noteq> None \<longrightarrow>
              (\<exists>e. get_v rl h config k = Inr e \<and> plain_value rl h e \<and>
                   (\<forall>s\<in>set (for_in_keys rl h e). data_key rl h e s \<and> can_set h t s)))"
  shows "\<exists>h'. annotate_methods rl h (Ref c) config ks = Inr h'"
  using assms
proof (induction ks arbitrary: h)
  case Nil
  show ?case by simp
next
  case (Cons k ks)
  note cs = \<open>class_shape h c p\<close> and pc = \<open>plain_value rl h config\<close>
  note pr = class_shape_prototype [OF cs, of rl]
  from Cons.prems(3) have mk: "data_key rl h (Ref p) k" by simp
  from Cons.prems(3) have hyps: "\<forall>k\<in>set ks. data_key rl h (Ref p) k \<and> data_key rl h config k \<and>
           (\<forall>t. get_v rl h (Ref p) k = Inr (Ref t) \<and> fn_of h (Ref t) \<noteq> None \<longrightarrow>
              (\<exists>e. get_v rl h config k = Inr e \<and> plain_value rl h e \<and>
                   (\<forall>s\<in>set (for_in_keys rl h e). data_key rl h e s \<and> can_set h t s)))"
    by simp
  from get_v_data_defined [OF mk] obtain m where m: "get_v rl h (Ref p) k = Inr m" ..
  show ?case
  proof (cases "typeof h m = ''function''")
    case False
    from Cons.IH [OF cs pc hyps] False pr m show ?thesis by simp
  next
    case True
    then obtain t where t: "m = Ref t" "fn_of h (Ref t) \<noteq> None"
      by (auto simp: typeof_function)
    with Cons.prems(3) m obtain e where e: "get_v rl h config k = Inr e" "plain_value rl h e"
        "\<forall>s\<in>set (for_in_keys rl h e). data_key rl h e s \<and> can_set h t s"
      by auto
    note mt = m [unfolded t(1)]
    have "\<exists>h1. annotate_method rl h (Ref c) k e (for_in_keys rl h e) = Inr h1 \<and>
        (\<forall>t' s. can_set h t' s \<longrightarrow> can_set h1 t' s)"
    proof (cases "e = Undefined \<or> e = Null")
      case True
      then show ?thesis by auto
    next
      case False
      then have ne: "e \<noteq> Undefined" "e \<noteq> Null" by simp_all
      from e(3) have ek: "\<forall>s\<in>set (for_in_keys rl h e). data_key rl h e s"
        and tk: "\<forall>s\<in>set (for_in_keys rl h e). data_key rl h (Ref t) s"
        by (auto intro: can_set_data_key)
      from annotate_method_completes [OF cs mk mt t(2) ne ek tk] e(3) obtain h1
        where inner: "annotate_method rl h (Ref c) k e (for_in_keys rl h e) = Inr h1"
        by blast
      from annotate_method_post [OF inner cs mk mt t(2) ek tk] inner show ?thesis by blast
    qed
    then obtain h1 where inner: "annotate_method rl h (Ref c) k e (for_in_keys rl h e) = Inr h1"
      and kept: "\<And>t' s. can_set h t' s \<Longrightarrow> can_set h1 t' s"
      by blast
    from annotate_method_frame [OF inner cs mk mt t(2)]
    have other: "\<And>b. b \<noteq> t \<Longrightarrow> h1 ! b = h ! b" and cs1: "class_shape h1 c p"
      and ch1: "chain_objs h1 (Some p) = chain_objs h (Some p)"
      by blast+
    from annotate_method_calls [OF inner]
    have len: "length h1 = length h" and calls: "\<And>b. call (h1 ! b) = call (h ! b)"
      by simp_all
    note fn1 = fn_of_cong [OF len calls]
    have pc1: "plain_value rl h1 config"
      using len other t(2) pc by (rule plain_value_kept)
    have hyp1: "\<forall>k'\<in>set ks. data_key rl h1 (Ref p) k' \<and> data_key rl h1 config k' \<and>
           (\<forall>t'. get_v rl h1 (Ref p) k' = Inr (Ref t') \<and> fn_of h1 (Ref t') \<noteq> None \<longrightarrow>
              (\<exists>e'. get_v rl h1 config k' = Inr e' \<and> plain_value rl h1 e' \<and>
                   (\<forall>s\<in>set (for_in_keys rl h1 e'). data_key rl h1 e' s \<and> can_set h1 t' s)))"
    proof (intro ballI conjI allI impI)
      fix k' assume k': "k' \<in> set ks"
      with hyps have mk': "data_key rl h (Ref p) k'" and ck': "data_key rl h config k'"
        by simp_all
      from method_read_kept(1) [OF ch1 mk'] show "data_key rl h1 (Ref p) k'" .
      from ck' show "data_key rl h1 config k'"
        by (simp add: plain_reads_kept(2) [OF len other t(2) pc])
      fix t'
      assume "get_v rl h1 (Ref p) k' = Inr (Ref t') \<and> fn_of h1 (Ref t') \<noteq> None"
      then have "get_v rl h (Ref p) k' = Inr (Ref t') \<and> fn_of h (Ref t') \<noteq> None"
        by (simp add: method_read_kept(2) [OF ch1 mk'] fn1)
      with hyps k' obtain e' where e': "get_v rl h config k' = Inr e'"
          "plain_value rl h e'"
          "\<forall>s\<in>set (for_in_keys rl h e'). data_key rl h e' s \<and> can_set h t' s"
        by blast
      have "get_v rl h1 config k' = Inr e'"
        using plain_reads_kept(3) [OF len other t(2) pc ck'] e'(1) by simp
      moreover have "plain_value rl h1 e'"
        using len other t(2) e'(2) by (rule plain_value_kept)
      moreover have "\<forall>s\<in>set (for_in_keys rl h1 e'). data_key rl h1 e' s \<and> can_set h1 t' s"
        using e'(3) kept
        by (simp add: plain_reads_kept(1,2) [OF len other t(2) e'(2)])
      ultimately show "\<exists>e'. get_v rl h1 config k' = Inr e' \<and> plain_value rl h1 e' \<and>
          (\<forall>s\<in>set (for_in_keys rl h1 e'). data_key rl h1 e' s \<and> can_set h1 t' s)"
        by blast
    qed
    from Cons.IH [OF cs1 pc1 hyp1] obtain h'
      where "annotate_methods rl h1 (Ref c) config ks = Inr h'" ..
    with pr m True e(1) inner show ?thesis by simp
  qed
qed

text \<open>A config that names one method, for a class of the usual shape.\<close>

lemma class_single:
  assumes "isClass rl h (Ref c) = Inr cv" and "to_boolean cv"
    and "class_shape h c p"
    and "get_v rl h (Ref p) m = Inr (Ref t)" and "fn_of h (Ref t) \<noteq> None"
    and "for_in_keys rl h config = [m]" and "get_v rl h config m = Inr e"
  shows "withErrors rl h (Ref c) config =
     ebind (annotate_method rl h (Ref c) m e (for_in_keys rl h e)) (\<lambda>h'. Inr (h', Ref c))"
proof -
  from assms(5) have "typeof h (Ref t) = ''function''"
    by (simp add: typeof_function)
  with assms(4,6,7) class_shape_prototype [OF assms(3), of rl] show ?thesis
    by (simp add: class_mode [OF assms(1,2)] ebind_def split: sum.splits)
qed

text \<open>A method that the class's own method table \<open>p\<close> lacks and its prototype \<open>q\<close> holds.\<close>

lemma inherited_method_read:
  assumes pl: "plain_chain h p" and own: "map_of (props (h ! p)) m = None"
    and sup: "proto (h ! p) = Some q" and mp: "map_of (props (h ! q)) m = Some mp" "is_data mp"
  shows "get_v rl h (Ref p) m = Inr (pval mp)" and "data_key rl h (Ref p) m"
    and "q < length h" and "fn_of h (Ref q) = None"
proof -
  from pl have e: "ends (length h) h (Some p)" by (simp add: plain_chain_def)
  then obtain n where n: "length h = Suc n" by (cases "length h") auto
  with e sup have p: "p < length h" and eq: "ends n h (Some q)"
    by (auto simp: lookup_obj_def split: if_splits)
  from eq obtain n' where n': "n = Suc n'" by (cases n) auto
  with eq show q: "q < length h"
    by (auto simp: lookup_obj_def split: if_splits)
  have "ends (length h) h (Some q)" unfolding n by (rule ends_mono [OF eq])
  from inherits_find [OF p sup own this] mp(1) q
  have f: "find_prop (chain_objs h (Some p)) m = Some mp"
    by (simp add: find_prop_own)
  with mp(2) show dk: "data_key rl h (Ref p) m"
    by (simp add: data_key_def objs_of_def)
  from f get_v_Ref [OF dk] show "get_v rl h (Ref p) m = Inr (pval mp)" by simp
  from p sup q n n' have "q \<in> set (chain (length h) h (Some p))"
    by (simp add: lookup_obj_def)
  with pl show "fn_of h (Ref q) = None" by (rule plain_chain_not_function)
qed

subsection \<open>The copy loop when every key is a data property\<close>

lemma assign_props_other:
  "assign_props rl h a from ks = Inr h' \<Longrightarrow> b \<noteq> a \<Longrightarrow> h' ! b = h ! b"
proof (induction ks arbitrary: h)
  case Nil
  then show ?case by simp
next
  case (Cons k ks)
  from Cons.prems(1) show ?case
  proof (cases rule: assign_props_step)
    case skip
    from Cons.IH [OF skip(2) Cons.prems(2)] show ?thesis .
  next
    case (copy v h1)
    from Cons.IH [OF copy(4) Cons.prems(2)] set_prop_frame(4) [OF copy(3) Cons.prems(2)]
    show ?thesis by simp
  qed
qed

lemma assign_props_other_key:
  "assign_props rl h a from ks = Inr h' \<Longrightarrow> k \<notin> set ks \<Longrightarrow>
     map_of (props (h' ! b)) k = map_of (props (h ! b)) k"
proof (induction ks arbitrary: h)
  case Nil
  then show ?case by simp
next
  case (Cons k0 ks)
  from Cons.prems(2) have ne: "k \<noteq> k0" and nin: "k \<notin> set ks" by simp_all
  from Cons.prems(1) show ?case
  proof (cases rule: assign_props_step)
    case skip
    from Cons.IH [OF skip(2) nin] show ?thesis .
  next
    case (copy v h1)
    from Cons.IH [OF copy(4) nin] set_prop_frame(5) [OF copy(3) ne, of b]
    show ?thesis by simp
  qed
qed

lemma assign_props_round:
  assumes "own_prop rl h from k = Some p" and "enumerable p" and "is_data p"
    and "data_key rl h (Ref a) k"
  shows "assign_props rl h a from (k # ks) =
      ebind (set_data h a k (pval p)) (\<lambda>h1. assign_props rl h1 a from ks)"
  using assms by (simp add: get_v_own set_prop_data)

lemma assign_props_post:
  assumes "assign_props rl h a from ks = Inr h'"
    and "\<forall>k\<in>set ks. \<forall>p. own_prop rl h from k = Some p \<longrightarrow> enumerable p \<longrightarrow> is_data p"
    and "\<forall>k\<in>set ks. own_enumerable rl h from k \<longrightarrow> data_key rl h (Ref a) k"
  shows "same_skeleton h h' \<and>
         (\<forall>k. own_prop rl h' from k = own_prop rl h from k) \<and>
         (\<forall>k p. k \<in> set ks \<longrightarrow> own_prop rl h from k = Some p \<longrightarrow> enumerable p \<longrightarrow>
            (\<exists>q. map_of (props (h' ! a)) k = Some q \<and> is_data q \<and> pval q = pval p \<and> writable q))"
  using assms
proof (induction ks arbitrary: h)
  case Nil
  then show ?case by simp
next
  case (Cons k ks)
  from Cons.prems(2) have sd: "\<forall>k\<in>set ks. \<forall>p. own_prop rl h from k = Some p \<longrightarrow>
      enumerable p \<longrightarrow> is_data p"
    by simp
  from Cons.prems(3) have tk: "\<forall>k\<in>set ks. own_enumerable rl h from k \<longrightarrow> data_key rl h (Ref a) k"
    by simp
  show ?case
  proof (cases "own_enumerable rl h from k")
    case False
    from Cons.prems(1) have "assign_props rl h a from ks = Inr h'"
      by (simp only: assign_props_skip [OF False])
    from Cons.IH [OF this sd tk] False show ?thesis
      by (auto simp: own_enumerable_def split: option.splits)
  next
    case True
    then obtain p where p: "own_prop rl h from k = Some p" "enumerable p"
      by (auto simp: own_enumerable_def split: option.splits)
    with Cons.prems(2) have dp: "is_data p" by simp
    from Cons.prems(3) True have dk: "data_key rl h (Ref a) k" by simp
    from Cons.prems(1) [unfolded assign_props_round [OF p dp dk]] obtain h1
      where w: "set_data h a k (pval p) = Inr h1"
        and rest: "assign_props rl h1 a from ks = Inr h'"
      by (auto simp: ebind_eq_Inr)
    have own1: "\<And>k'. own_prop rl h1 from k' = own_prop rl h from k'"
      using w p(1) by (rule set_data_own_prop_source)
    then have en1: "\<And>k'. own_enumerable rl h1 from k' = own_enumerable rl h from k'"
      by (simp add: own_enumerable_def)
    have sd1: "\<forall>k\<in>set ks. \<forall>p. own_prop rl h1 from k = Some p \<longrightarrow> enumerable p \<longrightarrow> is_data p"
      using sd by (simp add: own1)
    have tk1: "\<forall>k\<in>set ks. own_enumerable rl h1 from k \<longrightarrow> data_key rl h1 (Ref a) k"
      using tk set_data_data_key_same [OF w] by (auto simp: en1)
    note IH = Cons.IH [OF rest sd1 tk1, unfolded own1]
    from set_data_own [OF w] obtain q
      where q: "map_of (props (h1 ! a)) k = Some q" "is_data q" "pval q = pval p" "writable q"
      by blast
    have A0: "same_skeleton h h'"
      using set_data_skeleton [OF w] IH by (blast intro: same_skeleton_trans)
    have A1: "\<forall>k'. own_prop rl h' from k' = own_prop rl h from k'"
      using IH by (elim conjE)
    have A2: "\<forall>k' p'. k' \<in> set (k # ks) \<longrightarrow> own_prop rl h from k' = Some p' \<longrightarrow> enumerable p' \<longrightarrow>
            (\<exists>q. map_of (props (h' ! a)) k' = Some q \<and> is_data q \<and> pval q = pval p' \<and> writable q)"
    proof (intro allI impI)
      fix k' p'
      assume k': "k' \<in> set (k # ks)" and p': "own_prop rl h from k' = Some p'" "enumerable p'"
      show "\<exists>q. map_of (props (h' ! a)) k' = Some q \<and> is_data q \<and> pval q = pval p' \<and> writable q"
      proof (cases "k' \<in> set ks")
        case True
        with IH p' show ?thesis by blast
      next
        case False
        with k' have kk: "k' = k" by simp
        from rest False have "map_of (props (h' ! a)) k' = map_of (props (h1 ! a)) k'"
          by (rule assign_props_other_key)
        with kk q p p' show ?thesis by simp
      qed
    qed
    from A0 A1 A2 show ?thesis by (intro conjI)
  qed
qed

text \<open>The copy loop completes exactly when every key it copies can be written.\<close>

lemma assign_props_completes:
  assumes "\<forall>k\<in>set ks. \<forall>p. own_prop rl h from k = Some p \<longrightarrow> enumerable p \<longrightarrow> is_data p"
    and "\<forall>k\<in>set ks. own_enumerable rl h from k \<longrightarrow> data_key rl h (Ref a) k"
  shows "(\<exists>h'. assign_props rl h a from ks = Inr h') \<longleftrightarrow>
     (\<forall>k\<in>set ks. own_enumerable rl h from k \<longrightarrow> can_set h a k)"
  using assms
proof (induction ks arbitrary: h)
  case Nil
  show ?case by simp
next
  case (Cons k ks)
  from Cons.prems(1) have sd: "\<forall>k\<in>set ks. \<forall>p. own_prop rl h from k = Some p \<longrightarrow>
      enumerable p \<longrightarrow> is_data p"
    by simp
  from Cons.prems(2) have tk: "\<forall>k\<in>set ks. own_enumerable rl h from k \<longrightarrow> data_key rl h (Ref a) k"
    by simp
  show ?case
  proof (cases "own_enumerable rl h from k")
    case False
    show ?thesis
      unfolding assign_props_skip [OF False] using Cons.IH [OF sd tk] False by simp
  next
    case True
    then obtain p where p: "own_prop rl h from k = Some p" "enumerable p"
      by (auto simp: own_enumerable_def split: option.splits)
    with Cons.prems(1) have dp: "is_data p" by simp
    from Cons.prems(2) True have dk: "data_key rl h (Ref a) k" by simp
    note eq = assign_props_round [OF p dp dk, of ks]
    show ?thesis
    proof (cases "can_set h a k")
      case False
      then have "\<not> (\<exists>h1. set_data h a k (pval p) = Inr h1)"
        using set_data_Inr by blast
      with False True show ?thesis
        unfolding eq by (auto simp: ebind_eq_Inr)
    next
      case cs: True
      then obtain h1 where w: "set_data h a k (pval p) = Inr h1"
        using can_set_set_data by blast
      have own1: "\<And>k'. own_prop rl h1 from k' = own_prop rl h from k'"
        using w p(1) by (rule set_data_own_prop_source)
      then have en1: "\<And>k'. own_enumerable rl h1 from k' = own_enumerable rl h from k'"
        by (simp add: own_enumerable_def)
      have sd1: "\<forall>k\<in>set ks. \<forall>p. own_prop rl h1 from k = Some p \<longrightarrow> enumerable p \<longrightarrow> is_data p"
        using sd by (simp add: own1)
      have tk1: "\<forall>k\<in>set ks. own_enumerable rl h1 from k \<longrightarrow> data_key rl h1 (Ref a) k"
        using tk set_data_data_key_same [OF w] by (auto simp: en1)
      have cs1: "can_set h1 a k' \<longleftrightarrow> k' = k \<or> can_set h a k'" for k'
      proof (cases "k' = k")
        case True
        with set_data_can_set_same [OF w] show ?thesis by simp
      next
        case False
        with set_data_can_set_other_key [OF w, of k' a] show ?thesis by simp
      qed
      from w have "(\<exists>h'. assign_props rl h a from (k # ks) = Inr h') \<longleftrightarrow>
          (\<exists>h'. assign_props rl h1 a from ks = Inr h')"
        unfolding eq by simp
      also have "\<dots> \<longleftrightarrow> (\<forall>k'\<in>set ks. own_enumerable rl h1 from k' \<longrightarrow> can_set h1 a k')"
        using sd1 tk1 by (rule Cons.IH)
      also have "\<dots> \<longleftrightarrow> (\<forall>k'\<in>set (k # ks). own_enumerable rl h from k' \<longrightarrow> can_set h a k')"
        using cs by (auto simp: en1 cs1)
      finally show ?thesis .
    qed
  qed
qed

subsection \<open>A second call\<close>

text \<open>
  A target whose \<open>toString\<close> is the built-in one is classified by its source text, which no
  write changes; so it is classified as before after writes that keep every property
  named \<open>toString\<close>.
\<close>

lemma isClass_kept:
  assumes ts: "get_v rl h (Ref a) ''toString'' = Inr f" "fn_of h f = Some c"
      "behaviour c = FunctionPrototypeToString" "data_key rl h (Ref a) ''toString''"
    and sk: "same_skeleton h h'"
    and key: "\<And>b. map_of (props (h' ! b)) ''toString'' = map_of (props (h ! b)) ''toString''"
  shows "isClass rl h' (Ref a) = isClass rl h (Ref a)"
    and "get_v rl h' (Ref a) ''toString'' = Inr f" and "fn_of h' f = Some c"
    and "data_key rl h' (Ref a) ''toString''"
proof -
  have ch: "chain (length h') h' y = chain (length h) h y" for y
    using sk by (simp add: same_skeleton_chain same_skeleton_len)
  have "find_prop (chain_objs h' (Some a)) ''toString'' = find_prop (chain_objs h (Some a)) ''toString''"
    unfolding chain_objs_def ch by (rule find_prop_map_cong) (rule key)
  then have fp: "find_prop (objs_of rl h' (Ref a)) ''toString''
      = find_prop (objs_of rl h (Ref a)) ''toString''"
    by (simp add: objs_of_def)
  from lookup_cong(1) [OF fp ts(4)] show dk': "data_key rl h' (Ref a) ''toString''" .
  from lookup_cong(2) [OF fp ts(4)] ts(1) show g': "get_v rl h' (Ref a) ''toString'' = Inr f"
    by simp
  from ts(2) same_skeleton_fn_of [OF sk, of f] show f': "fn_of h' f = Some c" by simp
  show "isClass rl h' (Ref a) = isClass rl h (Ref a)"
  proof (cases "fn_of h (Ref a)")
    case None
    with same_skeleton_fn_of [OF sk, of "Ref a"] show ?thesis
      by (simp add: isClass_def typeof_def)
  next
    case (Some me)
    with same_skeleton_fn_of [OF sk, of "Ref a"] have "fn_of h' (Ref a) = Some me" by simp
    from isClass_builtin_toString [OF this g' f' ts(3)]
      isClass_builtin_toString [OF Some ts(1,2,3)]
    show ?thesis by simp
  qed
qed

lemma rewrite_callable:
  assumes mode: "isClass rl h (Ref a) = Inr cv" "\<not> to_boolean cv"
    and ts: "get_v rl h (Ref a) ''toString'' = Inr f" "fn_of h f = Some c"
      "behaviour c = FunctionPrototypeToString" "data_key rl h (Ref a) ''toString''"
    and K: "K \<noteq> ''toString''" and tk: "data_key rl h (Ref a) K"
    and A: "own_prop rl h cfgA K = Some pa" "enumerable pa" "is_data pa"
      "\<forall>k. own_enumerable rl h cfgA k \<longrightarrow> k = K"
    and first: "withErrors rl h (Ref a) cfgA = Inr (h1, v1)"
    and B: "own_prop rl h1 cfgB K = Some pb" "enumerable pb" "is_data pb"
      "\<forall>k. own_enumerable rl h1 cfgB k \<longrightarrow> k = K"
  shows "get_v rl h1 (Ref a) K = Inr (pval pa) \<and>
         (\<exists>h2. withErrors rl h1 (Ref a) cfgB = Inr (h2, Ref a) \<and>
            get_v rl h2 (Ref a) K = Inr (pval pb))"
proof -
  from A have enA: "own_enumerable rl h cfgA K" by (simp add: own_enumerable_def)
  from B have enB: "own_enumerable rl h1 cfgB K" by (simp add: own_enumerable_def)
  from first have l1: "assign_props rl h a cfgA (own_keys rl h cfgA) = Inr h1"
    by (auto simp: callable_mode [OF mode] ebind_eq_Inr)
  have sdA: "\<forall>k\<in>set (own_keys rl h cfgA). \<forall>p. own_prop rl h cfgA k = Some p \<longrightarrow>
      enumerable p \<longrightarrow> is_data p"
  proof (intro ballI allI impI)
    fix k p assume p: "own_prop rl h cfgA k = Some p" "enumerable p"
    then have "own_enumerable rl h cfgA k" by (simp add: own_enumerable_def)
    with A(4) have "k = K" by simp
    with p A(1,3) show "is_data p" by simp
  qed
  have tkA: "\<forall>k\<in>set (own_keys rl h cfgA). own_enumerable rl h cfgA k \<longrightarrow> data_key rl h (Ref a) k"
    using A(4) tk by auto
  from assign_props_post [OF l1 sdA tkA] own_enumerable_key [OF enA] A(1,2) obtain q
    where sk: "same_skeleton h h1"
      and q: "map_of (props (h1 ! a)) K = Some q" "is_data q" "pval q = pval pa" "writable q"
    by blast
  from assign_props_completes [OF sdA tkA] l1 own_enumerable_key [OF enA] enA
  have "can_set h a K" by blast
  then have "a < length h" by (rule can_set_valid)
  with sk have a1: "a < length h1" by (simp add: same_skeleton_def)
  have P1: "get_v rl h1 (Ref a) K = Inr (pval pa)"
    using own_prop_Ref_get [OF a1 q(1,2)] q(3) by simp
  have key: "map_of (props (h1 ! b)) ''toString'' = map_of (props (h ! b)) ''toString''" for b
  proof (cases "b = a")
    case True
    from A(4) K have "\<not> own_enumerable rl h cfgA ''toString''" by auto
    with l1 True show ?thesis by (simp add: assign_props_ignores)
  next
    case False
    with l1 show ?thesis by (simp add: assign_props_other)
  qed
  from isClass_kept(1) [OF ts sk key] mode
  have mode1: "isClass rl h1 (Ref a) = Inr cv" by simp
  have cs: "can_set h1 a K"
    using a1 q by (simp add: can_set_def lookup_obj_def)
  have sdB: "\<forall>k\<in>set (own_keys rl h1 cfgB). \<forall>p. own_prop rl h1 cfgB k = Some p \<longrightarrow>
      enumerable p \<longrightarrow> is_data p"
  proof (intro ballI allI impI)
    fix k p assume p: "own_prop rl h1 cfgB k = Some p" "enumerable p"
    then have "own_enumerable rl h1 cfgB k" by (simp add: own_enumerable_def)
    with B(4) have "k = K" by simp
    with p B(1,3) show "is_data p" by simp
  qed
  have tkB: "\<forall>k\<in>set (own_keys rl h1 cfgB). own_enumerable rl h1 cfgB k \<longrightarrow>
      data_key rl h1 (Ref a) k"
    using B(4) can_set_data_key [OF cs] by auto
  from B(4) cs
  have "\<forall>k\<in>set (own_keys rl h1 cfgB). own_enumerable rl h1 cfgB k \<longrightarrow> can_set h1 a k"
    by auto
  with assign_props_completes [OF sdB tkB] obtain h2
    where l2: "assign_props rl h1 a cfgB (own_keys rl h1 cfgB) = Inr h2"
    by blast
  then have run2: "withErrors rl h1 (Ref a) cfgB = Inr (h2, Ref a)"
    by (simp add: callable_mode [OF mode1 mode(2)])
  from assign_props_post [OF l2 sdB tkB] own_enumerable_key [OF enB] B(1,2) obtain q2
    where sk2: "same_skeleton h1 h2"
      and q2: "map_of (props (h2 ! a)) K = Some q2" "is_data q2" "pval q2 = pval pb"
    by blast
  from sk2 a1 have "a < length h2"
    by (simp add: same_skeleton_def)
  from own_prop_Ref_get [OF this q2(1,2)] q2(3) have "get_v rl h2 (Ref a) K = Inr (pval pb)"
    by simp
  with P1 run2 show ?thesis by blast
qed

lemma rewrite_method:
  assumes mode: "isClass rl h (Ref c) = Inr cv" "to_boolean cv"
    and ts: "get_v rl h (Ref c) ''toString'' = Inr f" "fn_of h f = Some fc"
      "behaviour fc = FunctionPrototypeToString" "data_key rl h (Ref c) ''toString''"
    and cs: "class_shape h c p" and mk: "data_key rl h (Ref p) m"
    and m: "get_v rl h (Ref p) m = Inr (Ref t)" and t: "fn_of h (Ref t) \<noteq> None"
    and K: "K \<noteq> ''toString''" and tk: "data_key rl h (Ref t) K"
    and A: "for_in_keys rl h cfgA = [m]" "get_v rl h cfgA m = Inr eA"
      "for_in_keys rl h eA = [K]" "get_v rl h eA K = Inr A" "data_key rl h eA K"
    and first: "withErrors rl h (Ref c) cfgA = Inr (h1, v1)"
    and B: "for_in_keys rl h1 cfgB = [m]" "get_v rl h1 cfgB m = Inr eB"
      "for_in_keys rl h1 eB = [K]" "get_v rl h1 eB K = Inr B" "data_key rl h1 eB K"
  shows "get_v rl h1 (Ref t) K = Inr A \<and>
         (\<exists>h2. withErrors rl h1 (Ref c) cfgB = Inr (h2, Ref c) \<and>
            get_v rl h2 (Ref p) m = Inr (Ref t) \<and> get_v rl h2 (Ref t) K = Inr B)"
proof -
  from first have l1: "annotate_method rl h (Ref c) m eA [K] = Inr h1"
    using class_single [OF mode cs m t A(1,2)] A(3) by (auto simp: ebind_eq_Inr)
  have ekA: "\<forall>s\<in>set [K]. data_key rl h eA s" and tkA: "\<forall>s\<in>set [K]. data_key rl h (Ref t) s"
    using A(5) tk by simp_all
  from annotate_method_post [OF l1 cs mk m t ekA tkA] A(4) obtain q
    where sk: "same_skeleton h h1"
      and keys: "\<And>k. k \<noteq> K \<Longrightarrow> map_of (props (h1 ! t)) k = map_of (props (h ! t)) k"
      and q: "map_of (props (h1 ! t)) K = Some q" "is_data q" "writable q" "pval q = A"
    by auto
  from annotate_method_frame [OF l1 cs mk m t]
  have other: "\<And>b. b \<noteq> t \<Longrightarrow> h1 ! b = h ! b" and cs1: "class_shape h1 c p"
    and ch1: "chain_objs h1 (Some p) = chain_objs h (Some p)"
    by blast+
  from fn_of_valid [OF t] sk have t1: "t < length h1"
    by (simp add: same_skeleton_def)
  have P1: "get_v rl h1 (Ref t) K = Inr A"
    using own_prop_Ref_get [OF t1 q(1,2)] q(4) by simp
  have key: "map_of (props (h1 ! b)) ''toString'' = map_of (props (h ! b)) ''toString''" for b
    using other [of b] keys [of "''toString''"] K by (cases "b = t") auto
  from isClass_kept(1) [OF ts sk key] mode
  have mode1: "isClass rl h1 (Ref c) = Inr cv" by simp
  have mk1: "data_key rl h1 (Ref p) m" and m1: "get_v rl h1 (Ref p) m = Inr (Ref t)"
    using method_read_kept [OF ch1 mk] m by simp_all
  have tf1: "fn_of h1 (Ref t) \<noteq> None" using t same_skeleton_fn_of [OF sk] by simp
  from B(4) have e: "eB \<noteq> Undefined" "eB \<noteq> Null" by (auto simp: get_v_def split: if_splits)
  have c1: "can_set h1 t K" using t1 q by (simp add: can_set_def lookup_obj_def)
  have ekB: "\<forall>s\<in>set [K]. data_key rl h1 eB s" and tkB: "\<forall>s\<in>set [K]. data_key rl h1 (Ref t) s"
    using B(5) can_set_data_key [OF c1] by simp_all
  from annotate_method_completes [OF cs1 mk1 m1 tf1 e ekB tkB] c1 obtain h2
    where l2: "annotate_method rl h1 (Ref c) m eB [K] = Inr h2"
    by auto
  then have run2: "withErrors rl h1 (Ref c) cfgB = Inr (h2, Ref c)"
    using class_single [OF mode1 mode(2) cs1 m1 tf1 B(1,2)] B(3) by simp
  from annotate_method_post [OF l2 cs1 mk1 m1 tf1 ekB tkB] B(4) obtain q2
    where sk2: "same_skeleton h1 h2"
      and q2: "map_of (props (h2 ! t)) K = Some q2" "is_data q2" "pval q2 = B"
    by auto
  from annotate_method_frame [OF l2 cs1 mk1 m1 tf1]
  have ch2: "chain_objs h2 (Some p) = chain_objs h1 (Some p)" by blast
  from sk2 t1 have "t < length h2" by (simp add: same_skeleton_def)
  from own_prop_Ref_get [OF this q2(1,2)] q2(3) have "get_v rl h2 (Ref t) K = Inr B" by simp
  moreover have "get_v rl h2 (Ref p) m = Inr (Ref t)"
    using method_read_kept(2) [OF ch2 mk1] m1 by simp
  ultimately show ?thesis using P1 run2 by blast
qed

subsection \<open>The examples\<close>

text \<open>
  The prefix that \<open>isClass\<close> tests ends with a space, so a class whose source has no space
  after the keyword is classified as Callable.
\<close>

lemma spaceless_class_is_callable:
  "map_option kind (fn_of spaceless (Ref 6)) = Some ClassDefinition \<and>
   source_matches_kind (the (fn_of spaceless (Ref 6))) \<and>
   isClass demo_realm spaceless (Ref 6) = Inr (Bool False)"
  by code_simp

text \<open>
  A slot named \<open>caller\<close> meets the accessor that every function inherits from
  \<open>Function.prototype\<close>; its setter throws, so the call raises \<open>TypeError\<close>.
\<close>

lemma caller_slot_throws:
  "\<not> data_key demo_realm accessor_slots (Ref 14) ''caller'' \<and>
   withErrors demo_realm accessor_slots (Ref 14) (Ref 15) = Inl TypeError"
  by code_simp

text \<open>
  A slot named \<open>__proto__\<close> meets the accessor of \<open>Object.prototype\<close>. With a value that is
  not an object its setter does nothing: the call completes, the heap is as before, and
  \<open>f.__proto__\<close> is still \<open>Function.prototype\<close>.
\<close>

lemma proto_slot_ignored:
  "withErrors demo_realm accessor_slots (Ref 14) (Ref 16) = Inr (accessor_slots, Ref 14) \<and>
   get_v demo_realm accessor_slots (Ref 16) ''__proto__'' = Inr (Num 5) \<and>
   get_v demo_realm accessor_slots (Ref 14) ''__proto__'' = Inr (Ref 1)"
  by code_simp

text \<open>
  With a value that is an object the setter gives the method another prototype: in class
  mode, \<open>withErrors(S, { op: { ['__proto__']: slots } })\<close> creates no property on the method
  \<open>op\<close> and makes \<open>slots\<close> its prototype.
\<close>

lemma proto_slot_relinks:
  "proto (accessor_slots ! 10) = Some 1 \<and>
   ebind (withErrors demo_realm accessor_slots (Ref 8) (Ref 18)) (\<lambda>(h', v).
     Inr (proto (h' ! 10), map_of (props (h' ! 10)) ''__proto__'', props (h' ! 10) = props (accessor_slots ! 10)))
     = Inr (Some 11, None, True)"
  by code_simp

text \<open>
  A \<open>toString\<close> of the program can look at the slots: after the first call has attached
  \<open>Boom\<close>, the arrow function \<open>g\<close> is classified as a class, and the second call raises
  \<open>TypeError\<close> on \<open>g.prototype[...]\<close>, \<open>g.prototype\<close> being \<open>undefined\<close>.
\<close>

lemma watching_toString:
  "isClass demo_realm watching (Ref 8) = Inr (Bool False) \<and>
   ebind (withErrors demo_realm watching (Ref 8) (Ref 10)) (\<lambda>(h1, v).
     isClass demo_realm h1 (Ref 8)) = Inr (Bool True) \<and>
   ebind (withErrors demo_realm watching (Ref 8) (Ref 10)) (\<lambda>(h1, v).
     withErrors demo_realm h1 (Ref 8) (Ref 13)) = Inl TypeError"
  by code_simp

section \<open>The claims\<close>

text \<open>
  C2. For every target \<open>X\<close> that is an object, a function or a class constructor, and every
  config, the value \<open>withErrors(X, config)\<close> returns is the reference \<open>X\<close> itself: the call
  allocates no object, and the object at \<open>X\<close> has kept its function part, so the result is
  neither a copy nor a subclass. (A call that raises an exception returns nothing.)
\<close>

theorem withErrors_returns_target:
  assumes "withErrors rl h (Ref a) config = Inr (h', v)"
  shows "v = Ref a \<and> length h' = length h \<and> fn_of h' v = fn_of h (Ref a)"
proof -
  from assms have v: "v = Ref a"
    by (auto simp: withErrors_def Object_assign_def ebind_eq_Inr split: if_splits)
  from withErrors_calls [OF assms]
  have len: "length h' = length h" and calls: "\<And>b. call (h' ! b) = call (h ! b)"
    by simp_all
  from len calls have "fn_of h' (Ref a) = fn_of h (Ref a)"
    by (rule fn_of_cong)
  with len v show ?thesis by simp
qed

theorem withErrors_returns_target_witness:
  "\<not> isl (withErrors demo_realm scenario (Ref 14) (Ref 11)) \<and>
   snd (projr (withErrors demo_realm scenario (Ref 14) (Ref 11))) = Ref 14 \<and>
   \<not> isl (withErrors demo_realm scenario (Ref 8) (Ref 12)) \<and>
   snd (projr (withErrors demo_realm scenario (Ref 8) (Ref 12))) = Ref 8"
proof -
  have f: "\<not> isl (withErrors demo_realm scenario (Ref 14) (Ref 11))"
    by code_simp
  have c: "\<not> isl (withErrors demo_realm scenario (Ref 8) (Ref 12))"
    by code_simp
  from f obtain h1 v1 where r1: "withErrors demo_realm scenario (Ref 14) (Ref 11) = Inr (h1, v1)"
    by (cases "withErrors demo_realm scenario (Ref 14) (Ref 11)") auto
  from c obtain h2 v2 where r2: "withErrors demo_realm scenario (Ref 8) (Ref 12) = Inr (h2, v2)"
    by (cases "withErrors demo_realm scenario (Ref 8) (Ref 12)") auto
  from withErrors_returns_target [OF r1] withErrors_returns_target [OF r2] f c r1 r2
  show ?thesis by simp
qed




text \<open>
  C6, amended. A value that is not a function is classified as Callable. For a function
  whose \<open>toString\<close> is the built-in \<open>Function.prototype.toString\<close>, the classification is
  read off the source text: a source that starts with \<open>class\<close> and a space is classified as
  ClassConstructor, a source whose first word is not \<open>class\<close> as Callable; so an arrow
  function with the built-in \<open>toString\<close> is always Callable. The discriminator returns a
  value only: it takes the heap and gives none back.
\<close>

theorem isClass_by_source:
  assumes "fn_of h (Ref a) = Some me"
    and "get_v rl h (Ref a) ''toString'' = Inr f"
    and "fn_of h f = Some c"
    and "behaviour c = FunctionPrototypeToString"
  shows "(take 6 (source me) = ''class '' \<longrightarrow> isClass rl h (Ref a) = Inr (Bool True)) \<and>
         (first_word (source me) \<noteq> ''class'' \<longrightarrow> isClass rl h (Ref a) = Inr (Bool False)) \<and>
         (kind me = ArrowFunction \<longrightarrow> source_matches_kind me \<longrightarrow>
            isClass rl h (Ref a) = Inr (Bool False)) \<and>
         (\<forall>v. typeof h v \<noteq> ''function'' \<longrightarrow> isClass rl h v = Inr (Bool False))"
proof -
  note eq = isClass_builtin_toString [OF assms]
  have "first_word (source me) \<noteq> ''class'' \<Longrightarrow> take 6 (source me) \<noteq> ''class ''"
    using first_word_class by blast
  moreover have "kind me = ArrowFunction \<Longrightarrow> source_matches_kind me \<Longrightarrow>
      first_word (source me) \<noteq> ''class''"
    by (simp add: source_matches_kind_def)
  ultimately show ?thesis
    using eq isClass_non_function by auto
qed

theorem isClass_by_source_witness:
  "fn_of scenario (Ref 8) \<noteq> None \<and>
   get_v demo_realm scenario (Ref 8) ''toString'' = Inr (Ref 2) \<and>
   map_option behaviour (fn_of scenario (Ref 2)) = Some FunctionPrototypeToString \<and>
   take 6 (source (the (fn_of scenario (Ref 8)))) = ''class '' \<and>
   isClass demo_realm scenario (Ref 8) = Inr (Bool True) \<and>
   map_option kind (fn_of scenario (Ref 14)) = Some ArrowFunction \<and>
   source_matches_kind (the (fn_of scenario (Ref 14))) \<and>
   get_v demo_realm scenario (Ref 14) ''toString'' = Inr (Ref 2) \<and>
   isClass demo_realm scenario (Ref 14) = Inr (Bool False) \<and>
   typeof scenario Null \<noteq> ''function'' \<and>
   isClass demo_realm scenario Null = Inr (Bool False)"
proof -
  have g: "get_v demo_realm scenario (Ref 8) ''toString'' = Inr (Ref 2)"
      "get_v demo_realm scenario (Ref 14) ''toString'' = Inr (Ref 2)"
    by code_simp+
  have b: "map_option behaviour (fn_of scenario (Ref 2)) = Some FunctionPrototypeToString"
    by code_simp
  then obtain c where c: "fn_of scenario (Ref 2) = Some c" "behaviour c = FunctionPrototypeToString"
    by auto
  have s: "fn_of scenario (Ref 8) \<noteq> None" by code_simp
  then obtain cls where cls: "fn_of scenario (Ref 8) = Some cls" by auto
  have t: "take 6 (source (the (fn_of scenario (Ref 8)))) = ''class ''" by code_simp
  have k: "map_option kind (fn_of scenario (Ref 14)) = Some ArrowFunction" by code_simp
  then obtain arrow where arrow: "fn_of scenario (Ref 14) = Some arrow" "kind arrow = ArrowFunction"
    by auto
  have m: "source_matches_kind (the (fn_of scenario (Ref 14)))" by code_simp
  have n: "typeof scenario Null \<noteq> ''function''" by code_simp
  from isClass_by_source [OF cls g(1) c] t cls
  have r1: "isClass demo_realm scenario (Ref 8) = Inr (Bool True)" by simp
  from isClass_by_source [OF arrow(1) g(2) c] arrow m
  have r2: "isClass demo_realm scenario (Ref 14) = Inr (Bool False)" by simp
  from isClass_by_source [OF cls g(1) c] n
  have r3: "isClass demo_realm scenario Null = Inr (Bool False)" by blast
  from g b s t k m n r1 r2 r3 show ?thesis by simp
qed

text \<open>
  C6 as stated fails: the discriminator asks the value for its string form by calling its
  \<open>toString\<close>, so an arrow function that carries its own \<open>toString\<close> returning
  \<open>class X {}\<close> is classified as ClassConstructor.
\<close>

theorem disguised_arrow_counterexample:
  "map_option kind (fn_of disguised (Ref 6)) = Some ArrowFunction \<and>
   isClass demo_realm disguised (Ref 6) = Inr (Bool True)"
  by code_simp

text \<open>
  C8, amended. Let \<open>C\<close> be a class constructor of the usual shape, its method table at \<open>p\<close>,
  whose \<open>toString\<close> is the built-in \<open>Function.prototype.toString\<close>, read from a data property;
  let no key of the config be an accessor property of the method table, and let every
  accessor property of the heap be a built-in one, so that the call runs no code of the
  program. A call
  \<open>withErrors(C, config)\<close> that completes allocates nothing and leaves every object of the
  heap with its function part (so construction behaviour is as before) and its
  extensibility; the method tables of the class and of its superclasses are unchanged,
  with their prototype links. Every object is unchanged except the function objects that
  the method table holds under a key of the config: a method is mutated when it is named
  in the config or is the same function object as a named one; the constructor itself is
  such an object when the config names \<open>constructor\<close>. (What is mutated of such a function
  is its properties, and its own prototype link when a slot is named \<open>__proto__\<close>, see
  \<open>proto_slot_relinks\<close>.)
\<close>

theorem class_frame:
  assumes "isClass rl h (Ref c) = Inr cv" and "to_boolean cv"
    and "class_shape h c p"
    and "\<forall>k\<in>set (for_in_keys rl h config). data_key rl h (Ref p) k"
    and "withErrors rl h (Ref c) config = Inr (h', v)"
    and "builtin_toString rl h (Ref c)" and "no_program_accessors h"
  shows "length h' = length h \<and>
         (\<forall>b. call (h' ! b) = call (h ! b) \<and> extensible (h' ! b) = extensible (h ! b)) \<and>
         chain_objs h' (Some p) = chain_objs h (Some p) \<and>
         (\<forall>b. b \<notin> targets rl h p (for_in_keys rl h config) \<longrightarrow> h' ! b = h ! b)"
proof -
  from assms(5) have loop: "annotate_methods rl h (Ref c) config (for_in_keys rl h config) = Inr h'"
    by (auto simp: class_mode [OF assms(1,2)] ebind_eq_Inr)
  from annotate_methods_frame [OF loop assms(3,4)] annotate_methods_calls [OF loop]
  show ?thesis by blast
qed

theorem class_frame_witness:
  "isClass demo_realm scenario (Ref 8) = Inr (Bool True) \<and> to_boolean (Bool True) \<and>
   class_shape scenario 8 9 \<and>
   for_in_keys demo_realm scenario (Ref 12) = [''op''] \<and>
   data_key demo_realm scenario (Ref 9) ''op'' \<and>
   builtin_toString demo_realm scenario (Ref 8) \<and> no_program_accessors scenario \<and>
   \<not> isl (withErrors demo_realm scenario (Ref 8) (Ref 12)) \<and>
   13 \<notin> targets demo_realm scenario 9 (for_in_keys demo_realm scenario (Ref 12)) \<and>
   fst (projr (withErrors demo_realm scenario (Ref 8) (Ref 12))) ! 13 = scenario ! 13 \<and>
   length (fst (projr (withErrors demo_realm scenario (Ref 8) (Ref 12)))) = length scenario"
proof -
  have m: "isClass demo_realm scenario (Ref 8) = Inr (Bool True)" by code_simp
  have b: "to_boolean (Bool True)" by (simp add: to_boolean_def)
  have s: "class_shape scenario 8 9" by code_simp
  have r: "\<not> isl (withErrors demo_realm scenario (Ref 8) (Ref 12))" by code_simp
  have k: "for_in_keys demo_realm scenario (Ref 12) = [''op'']" by code_simp
  have d: "data_key demo_realm scenario (Ref 9) ''op''" by code_simp
  have ts: "builtin_toString demo_realm scenario (Ref 8)" by code_simp
  have na: "no_program_accessors scenario" by code_simp
  have g: "get_v demo_realm scenario (Ref 9) ''op'' = Inr (Ref 10)" by code_simp
  have n: "13 \<notin> targets demo_realm scenario 9 (for_in_keys demo_realm scenario (Ref 12))"
    by (simp add: targets_def k g)
  have dk: "\<forall>k\<in>set (for_in_keys demo_realm scenario (Ref 12)). data_key demo_realm scenario (Ref 9) k"
    using d by (simp add: k)
  from r obtain h' v where run: "withErrors demo_realm scenario (Ref 8) (Ref 12) = Inr (h', v)"
    by (cases "withErrors demo_realm scenario (Ref 8) (Ref 12)") auto
  from class_frame [OF m b s dk run ts na] n have "length h' = length scenario" "h' ! 13 = scenario ! 13"
    by blast+
  with m b s k d ts na r n run show ?thesis by simp
qed

text \<open>
  C8 as stated fails when one function object is the method under two names: the config
  names only \<open>a\<close>, and the method \<open>b\<close>, not named in the config, carries the slot afterwards.
\<close>

theorem aliased_method_counterexample:
  "for_in_keys demo_realm aliased (Ref 12) = [''a''] \<and>
   ebind (get_v demo_realm aliased (Ref 9) ''b'') (\<lambda>f. get_v demo_realm aliased f ''Boom'')
     = Inr Undefined \<and>
   ebind (withErrors demo_realm aliased (Ref 8) (Ref 12)) (\<lambda>(h', v).
     ebind (get_v demo_realm h' (Ref 9) ''b'') (\<lambda>f. get_v demo_realm h' f ''Boom''))
     = Inr (Ref 6)"
  by code_simp






text \<open>
  C9, amended. Let \<open>C\<close> be a class constructor of the usual shape whose \<open>toString\<close> is the
  built-in \<open>Function.prototype.toString\<close>, read from a data property, and whose own method
  table \<open>p\<close> has no property \<open>m\<close>, while the superclass's method table \<open>q\<close>, the prototype of \<open>p\<close>,
  holds a function under \<open>m\<close> as a data property. Then \<open>C.prototype[m]\<close> is that function, so
  \<open>m\<close> counts as present. Let the config be \<open>{ m: slots }\<close>, and let every key of \<open>slots\<close> that
  \<open>for-in\<close> visits be a data property of \<open>slots\<close> and no accessor property of the function
  (as \<open>caller\<close>, \<open>arguments\<close> and \<open>__proto__\<close> are). The call completes exactly when every such
  key can be written on the function; and after a call that completes the superclass's
  method function itself carries every slot, and every ordinary object that read \<open>m\<close> as
  this function from a data property (an instance of the superclass, of \<open>C\<close>, or of another
  subclass that does not override \<open>m\<close>) still reads it and so observes the slots.
\<close>

theorem inherited_method:
  assumes mode: "isClass rl h (Ref c) = Inr cv" "to_boolean cv"
    and cs: "class_shape h c p"
    and own: "map_of (props (h ! p)) m = None"
    and sup: "proto (h ! p) = Some q"
    and mp: "map_of (props (h ! q)) m = Some mp" "is_data mp" "pval mp = Ref t"
    and t: "fn_of h (Ref t) \<noteq> None"
    and cfg: "for_in_keys rl h config = [m]" "data_key rl h config m"
      "get_v rl h config m = Inr e"
    and slots: "\<forall>s\<in>set (for_in_keys rl h e). data_key rl h e s \<and> data_key rl h (Ref t) s"
    and ts: "builtin_toString rl h (Ref c)"
  shows "get_v rl h (Ref p) m = Inr (Ref t) \<and> typeof h (Ref t) = ''function'' \<and>
         ((\<exists>h' v. withErrors rl h (Ref c) config = Inr (h', v)) \<longleftrightarrow>
            (\<forall>s\<in>set (for_in_keys rl h e). can_set h t s)) \<and>
         (\<forall>h' v. withErrors rl h (Ref c) config = Inr (h', v) \<longrightarrow>
            get_v rl h' (Ref q) m = Inr (Ref t) \<and>
            (\<forall>s\<in>set (for_in_keys rl h e). get_v rl h' (Ref t) s = get_v rl h e s) \<and>
            (\<forall>i. plain_chain h i \<and> data_key rl h (Ref i) m \<and>
                 get_v rl h (Ref i) m = Inr (Ref t) \<longrightarrow>
               get_v rl h' (Ref i) m = Inr (Ref t)))"
proof -
  from cs have pl: "plain_chain h p" by (rule class_shape_plain)
  note inh = inherited_method_read [OF pl own sup mp(1,2)]
  from inh(1) [of rl] mp(3) have m: "get_v rl h (Ref p) m = Inr (Ref t)" by simp
  note mk = inh(2) [of rl]
  from t have ty: "typeof h (Ref t) = ''function''" by (simp add: typeof_function)
  from slots have ek: "\<forall>s\<in>set (for_in_keys rl h e). data_key rl h e s"
    and tk: "\<forall>s\<in>set (for_in_keys rl h e). data_key rl h (Ref t) s"
    by simp_all
  have eq: "withErrors rl h (Ref c) config =
      ebind (annotate_method rl h (Ref c) m e (for_in_keys rl h e)) (\<lambda>h'. Inr (h', Ref c))"
    by (rule class_single [OF mode cs m t cfg(1,3)])
  have loop: "(\<exists>h'. annotate_method rl h (Ref c) m e (for_in_keys rl h e) = Inr h') \<longleftrightarrow>
      (\<forall>s\<in>set (for_in_keys rl h e). can_set h t s)"
  proof (cases "e = Undefined \<or> e = Null")
    case True
    then show ?thesis by auto
  next
    case False
    then have "e \<noteq> Undefined" "e \<noteq> Null" by simp_all
    then show ?thesis by (rule annotate_method_completes [OF cs mk m t _ _ ek tk])
  qed
  have completes: "(\<exists>h' v. withErrors rl h (Ref c) config = Inr (h', v)) \<longleftrightarrow>
      (\<forall>s\<in>set (for_in_keys rl h e). can_set h t s)"
    unfolding loop [symmetric] by (auto simp: eq ebind_eq_Inr)
  have post: "get_v rl h' (Ref q) m = Inr (Ref t) \<and>
            (\<forall>s\<in>set (for_in_keys rl h e). get_v rl h' (Ref t) s = get_v rl h e s) \<and>
            (\<forall>i. plain_chain h i \<and> data_key rl h (Ref i) m \<and>
                 get_v rl h (Ref i) m = Inr (Ref t) \<longrightarrow>
               get_v rl h' (Ref i) m = Inr (Ref t))"
    if run: "withErrors rl h (Ref c) config = Inr (h', v)" for h' v
  proof -
    from run have l: "annotate_method rl h (Ref c) m e (for_in_keys rl h e) = Inr h'"
      by (auto simp: eq ebind_eq_Inr)
    from annotate_method_post [OF l cs mk m t ek tk]
    have sk: "same_skeleton h h'"
      and slots': "\<And>s. s \<in> set (for_in_keys rl h e) \<Longrightarrow>
          \<exists>q. map_of (props (h' ! t)) s = Some q \<and> is_data q \<and> writable q
            \<and> get_v rl h e s = Inr (pval q)"
      by blast+
    from annotate_method_frame [OF l cs mk m t]
    have other: "\<And>b. b \<noteq> t \<Longrightarrow> h' ! b = h ! b" by blast
    note len = same_skeleton_len [OF sk]
    from fn_of_valid [OF t] len have t': "t < length h'" by simp
    from inh(4) t have "q \<noteq> t" by auto
    then have "h' ! q = h ! q" by (rule other)
    with mp inh(3) len have "get_v rl h' (Ref q) m = Inr (Ref t)"
      by (intro own_prop_Ref_get [where q = mp, unfolded mp(3)]) simp_all
    moreover have "get_v rl h' (Ref t) s = get_v rl h e s" if "s \<in> set (for_in_keys rl h e)" for s
      using slots' [OF that] own_prop_Ref_get [OF t'] by auto
    moreover have "get_v rl h' (Ref i) m = Inr (Ref t)"
      if "plain_chain h i \<and> data_key rl h (Ref i) m \<and> get_v rl h (Ref i) m = Inr (Ref t)" for i
      using plain_reads_kept(3) [OF len other t plain_chain_value, of i rl m] that by simp
    ultimately show ?thesis by blast
  qed
  from m ty completes post show ?thesis by blast
qed

theorem inherited_method_witness:
  "isClass demo_realm overriding (Ref 11) = Inr (Bool True) \<and> to_boolean (Bool True) \<and>
   class_shape overriding 11 12 \<and>
   map_of (props (overriding ! 12)) ''m'' = None \<and>
   proto (overriding ! 12) = Some 9 \<and>
   map_of (props (overriding ! 9)) ''m'' = Some (hidden (Ref 10)) \<and>
   is_data (hidden (Ref 10)) \<and> pval (hidden (Ref 10)) = Ref 10 \<and>
   fn_of overriding (Ref 10) \<noteq> None \<and>
   for_in_keys demo_realm overriding (Ref 17) = [''m''] \<and>
   data_key demo_realm overriding (Ref 17) ''m'' \<and>
   get_v demo_realm overriding (Ref 17) ''m'' = Inr (Ref 16) \<and>
   for_in_keys demo_realm overriding (Ref 16) = [''Boom''] \<and>
   data_key demo_realm overriding (Ref 16) ''Boom'' \<and>
   data_key demo_realm overriding (Ref 10) ''Boom'' \<and>
   builtin_toString demo_realm overriding (Ref 11) \<and>
   can_set overriding 10 ''Boom'' \<and>
   plain_chain overriding 19 \<and> data_key demo_realm overriding (Ref 19) ''m'' \<and>
   get_v demo_realm overriding (Ref 19) ''m'' = Inr (Ref 10) \<and>
   (\<exists>h' v. withErrors demo_realm overriding (Ref 11) (Ref 17) = Inr (h', v) \<and>
      get_v demo_realm h' (Ref 9) ''m'' = Inr (Ref 10) \<and>
      get_v demo_realm h' (Ref 10) ''Boom'' = Inr (Ref 6) \<and>
      get_v demo_realm h' (Ref 19) ''m'' = Inr (Ref 10))"
proof -
  have a: "isClass demo_realm overriding (Ref 11) = Inr (Bool True)" by code_simp
  have b: "to_boolean (Bool True)" by (simp add: to_boolean_def)
  have c: "class_shape overriding 11 12" by code_simp
  have d: "map_of (props (overriding ! 12)) ''m'' = None" by code_simp
  have e: "proto (overriding ! 12) = Some 9" by code_simp
  have f: "map_of (props (overriding ! 9)) ''m'' = Some (hidden (Ref 10))" by code_simp
  have g: "is_data (hidden (Ref 10))" "pval (hidden (Ref 10)) = Ref 10" by (simp_all add: hidden_def)
  have i: "fn_of overriding (Ref 10) \<noteq> None" by code_simp
  have j: "for_in_keys demo_realm overriding (Ref 17) = [''m'']" by code_simp
  have dk: "data_key demo_realm overriding (Ref 17) ''m''"
      "data_key demo_realm overriding (Ref 16) ''Boom''"
      "data_key demo_realm overriding (Ref 10) ''Boom''"
      "data_key demo_realm overriding (Ref 19) ''m''"
    by code_simp+
  have k: "get_v demo_realm overriding (Ref 17) ''m'' = Inr (Ref 16)" by code_simp
  have l: "for_in_keys demo_realm overriding (Ref 16) = [''Boom'']" by code_simp
  have n: "can_set overriding 10 ''Boom''" by code_simp
  have ts: "builtin_toString demo_realm overriding (Ref 11)" by code_simp
  have o: "plain_chain overriding 19" by code_simp
  have p: "get_v demo_realm overriding (Ref 19) ''m'' = Inr (Ref 10)" by code_simp
  have q: "get_v demo_realm overriding (Ref 16) ''Boom'' = Inr (Ref 6)" by code_simp
  have sl: "\<forall>s\<in>set (for_in_keys demo_realm overriding (Ref 16)).
      data_key demo_realm overriding (Ref 16) s \<and> data_key demo_realm overriding (Ref 10) s"
    using dk(2,3) by (simp add: l)
  note inh = inherited_method [OF a b c d e f g i j dk(1) k sl ts]
  from inh l n obtain h' v where run: "withErrors demo_realm overriding (Ref 11) (Ref 17) = Inr (h', v)"
    by auto
  from inh run l o dk(4) p q have "get_v demo_realm h' (Ref 9) ''m'' = Inr (Ref 10)"
      "get_v demo_realm h' (Ref 10) ''Boom'' = Inr (Ref 6)"
      "get_v demo_realm h' (Ref 19) ''m'' = Inr (Ref 10)"
    by auto
  with run have "\<exists>h' v. withErrors demo_realm overriding (Ref 11) (Ref 17) = Inr (h', v) \<and>
      get_v demo_realm h' (Ref 9) ''m'' = Inr (Ref 10) \<and>
      get_v demo_realm h' (Ref 10) ''Boom'' = Inr (Ref 6) \<and>
      get_v demo_realm h' (Ref 19) ''m'' = Inr (Ref 10)"
    by blast
  with a b c d e f g i j dk k l n ts o p show ?thesis by blast
qed

text \<open>
  C9 as stated fails for a subclass that overrides \<open>m\<close>: its instances read their own
  class's method, which carries no slot, while the instances of the superclass observe it.
\<close>

theorem overriding_subclass_counterexample:
  "proto (overriding ! 18) = Some 14 \<and> proto (overriding ! 14) = Some 9 \<and>
   proto (overriding ! 12) = Some 9 \<and>
   ebind (withErrors demo_realm overriding (Ref 11) (Ref 17)) (\<lambda>(h', v).
     ebind (get_v demo_realm h' (Ref 19) ''m'') (\<lambda>f. get_v demo_realm h' f ''Boom''))
     = Inr (Ref 6) \<and>
   ebind (withErrors demo_realm overriding (Ref 11) (Ref 17)) (\<lambda>(h', v).
     ebind (get_v demo_realm h' (Ref 18) ''m'') (\<lambda>f. get_v demo_realm h' f ''Boom''))
     = Inr Undefined"
  by code_simp

text \<open>
  C7, amended. Let \<open>K\<close> be a slot name other than \<open>toString\<close>, let the \<open>toString\<close> of the target
  be the built-in \<open>Function.prototype.toString\<close>, read from a data property, and let the
  configs be made of data properties. For a function \<open>fn\<close> classified as Callable of which
  \<open>K\<close> is no accessor property, own or inherited: when \<open>withErrors(fn, {K: A})\<close> has
  completed, \<open>fn.K === A\<close>, and a following \<open>withErrors(fn, {K: B})\<close> completes too and leaves
  \<open>fn.K === B\<close>; nothing detects the conflict. The same holds for a slot on a method of a
  class of the usual shape, \<open>K\<close> being no accessor property of the method: after
  \<open>withErrors(C, {m: {K: A}})\<close> has completed, \<open>withErrors(C, {m: {K: B}})\<close> completes and
  \<open>C.prototype.m.K === B\<close>.
\<close>

theorem last_write_wins:
  assumes "K \<noteq> ''toString''"
  shows "(isClass rl h (Ref a) = Inr cv \<and> \<not> to_boolean cv \<and>
          get_v rl h (Ref a) ''toString'' = Inr f \<and> fn_of h f = Some fc \<and>
          behaviour fc = FunctionPrototypeToString \<and> data_key rl h (Ref a) ''toString'' \<and>
          data_key rl h (Ref a) K \<and>
          own_prop rl h cfgA K = Some pa \<and> enumerable pa \<and> is_data pa \<and>
          (\<forall>k. own_enumerable rl h cfgA k \<longrightarrow> k = K) \<and>
          withErrors rl h (Ref a) cfgA = Inr (h1, v1) \<and>
          own_prop rl h1 cfgB K = Some pb \<and> enumerable pb \<and> is_data pb \<and>
          (\<forall>k. own_enumerable rl h1 cfgB k \<longrightarrow> k = K) \<longrightarrow>
            get_v rl h1 (Ref a) K = Inr (pval pa) \<and>
            (\<exists>h2. withErrors rl h1 (Ref a) cfgB = Inr (h2, Ref a) \<and>
               get_v rl h2 (Ref a) K = Inr (pval pb))) \<and>
         (isClass rl g (Ref c) = Inr cw \<and> to_boolean cw \<and>
          get_v rl g (Ref c) ''toString'' = Inr f' \<and> fn_of g f' = Some fc' \<and>
          behaviour fc' = FunctionPrototypeToString \<and> data_key rl g (Ref c) ''toString'' \<and>
          class_shape g c p \<and> data_key rl g (Ref p) m \<and>
          get_v rl g (Ref p) m = Inr (Ref t) \<and> fn_of g (Ref t) \<noteq> None \<and>
          data_key rl g (Ref t) K \<and>
          for_in_keys rl g mcfgA = [m] \<and> data_key rl g mcfgA m \<and> get_v rl g mcfgA m = Inr eA \<and>
          for_in_keys rl g eA = [K] \<and> data_key rl g eA K \<and> get_v rl g eA K = Inr A \<and>
          withErrors rl g (Ref c) mcfgA = Inr (g1, w1) \<and>
          for_in_keys rl g1 mcfgB = [m] \<and> data_key rl g1 mcfgB m \<and>
          get_v rl g1 mcfgB m = Inr eB \<and>
          for_in_keys rl g1 eB = [K] \<and> data_key rl g1 eB K \<and> get_v rl g1 eB K = Inr B \<longrightarrow>
            get_v rl g1 (Ref t) K = Inr A \<and>
            (\<exists>g2. withErrors rl g1 (Ref c) mcfgB = Inr (g2, Ref c) \<and>
               get_v rl g2 (Ref p) m = Inr (Ref t) \<and> get_v rl g2 (Ref t) K = Inr B))"
proof (intro conjI impI)
  assume a: "isClass rl h (Ref a) = Inr cv \<and> \<not> to_boolean cv \<and>
          get_v rl h (Ref a) ''toString'' = Inr f \<and> fn_of h f = Some fc \<and>
          behaviour fc = FunctionPrototypeToString \<and> data_key rl h (Ref a) ''toString'' \<and>
          data_key rl h (Ref a) K \<and>
          own_prop rl h cfgA K = Some pa \<and> enumerable pa \<and> is_data pa \<and>
          (\<forall>k. own_enumerable rl h cfgA k \<longrightarrow> k = K) \<and>
          withErrors rl h (Ref a) cfgA = Inr (h1, v1) \<and>
          own_prop rl h1 cfgB K = Some pb \<and> enumerable pb \<and> is_data pb \<and>
          (\<forall>k. own_enumerable rl h1 cfgB k \<longrightarrow> k = K)"
  have "get_v rl h1 (Ref a) K = Inr (pval pa) \<and>
            (\<exists>h2. withErrors rl h1 (Ref a) cfgB = Inr (h2, Ref a) \<and>
               get_v rl h2 (Ref a) K = Inr (pval pb))"
  proof (rule rewrite_callable [where cv = cv and f = f and c = fc and h = h and cfgA = cfgA
        and ?v1.0 = v1])
    show "K \<noteq> ''toString''" by (rule assms)
  qed (use a in simp_all)
  then show "get_v rl h1 (Ref a) K = Inr (pval pa)"
    and "\<exists>h2. withErrors rl h1 (Ref a) cfgB = Inr (h2, Ref a) \<and>
               get_v rl h2 (Ref a) K = Inr (pval pb)"
    by simp_all
next
  assume b: "isClass rl g (Ref c) = Inr cw \<and> to_boolean cw \<and>
          get_v rl g (Ref c) ''toString'' = Inr f' \<and> fn_of g f' = Some fc' \<and>
          behaviour fc' = FunctionPrototypeToString \<and> data_key rl g (Ref c) ''toString'' \<and>
          class_shape g c p \<and> data_key rl g (Ref p) m \<and>
          get_v rl g (Ref p) m = Inr (Ref t) \<and> fn_of g (Ref t) \<noteq> None \<and>
          data_key rl g (Ref t) K \<and>
          for_in_keys rl g mcfgA = [m] \<and> data_key rl g mcfgA m \<and> get_v rl g mcfgA m = Inr eA \<and>
          for_in_keys rl g eA = [K] \<and> data_key rl g eA K \<and> get_v rl g eA K = Inr A \<and>
          withErrors rl g (Ref c) mcfgA = Inr (g1, w1) \<and>
          for_in_keys rl g1 mcfgB = [m] \<and> data_key rl g1 mcfgB m \<and>
          get_v rl g1 mcfgB m = Inr eB \<and>
          for_in_keys rl g1 eB = [K] \<and> data_key rl g1 eB K \<and> get_v rl g1 eB K = Inr B"
  have "get_v rl g1 (Ref t) K = Inr A \<and>
            (\<exists>g2. withErrors rl g1 (Ref c) mcfgB = Inr (g2, Ref c) \<and>
               get_v rl g2 (Ref p) m = Inr (Ref t) \<and> get_v rl g2 (Ref t) K = Inr B)"
  proof (rule rewrite_method [where cv = cw and f = f' and fc = fc' and h = g and cfgA = mcfgA
        and eA = eA and ?v1.0 = w1 and eB = eB])
    show "K \<noteq> ''toString''" by (rule assms)
  qed (use b in simp_all)
  then show "get_v rl g1 (Ref t) K = Inr A"
    and "\<exists>g2. withErrors rl g1 (Ref c) mcfgB = Inr (g2, Ref c) \<and>
               get_v rl g2 (Ref p) m = Inr (Ref t) \<and> get_v rl g2 (Ref t) K = Inr B"
    by simp_all
qed

theorem last_write_wins_witness:
  "''Boom'' \<noteq> ''toString'' \<and>
   isClass demo_realm twice (Ref 14) = Inr (Bool False) \<and> \<not> to_boolean (Bool False) \<and>
   get_v demo_realm twice (Ref 14) ''toString'' = Inr (Ref 2) \<and>
   map_option behaviour (fn_of twice (Ref 2)) = Some FunctionPrototypeToString \<and>
   data_key demo_realm twice (Ref 14) ''toString'' \<and>
   data_key demo_realm twice (Ref 14) ''Boom'' \<and>
   own_prop demo_realm twice (Ref 11) ''Boom'' = Some (new_prop (Ref 6)) \<and>
   enumerable (new_prop (Ref 6)) \<and> is_data (new_prop (Ref 6)) \<and>
   own_keys demo_realm twice (Ref 11) = [''Boom''] \<and>
   withErrors demo_realm twice (Ref 14) (Ref 11) = Inr (twice_f, Ref 14) \<and>
   own_prop demo_realm twice_f (Ref 19) ''Boom'' = Some (new_prop (Ref 16)) \<and>
   enumerable (new_prop (Ref 16)) \<and> is_data (new_prop (Ref 16)) \<and>
   own_keys demo_realm twice_f (Ref 19) = [''Boom''] \<and>
   get_v demo_realm twice_f (Ref 14) ''Boom'' = Inr (Ref 6) \<and>
   (\<exists>h2. withErrors demo_realm twice_f (Ref 14) (Ref 19) = Inr (h2, Ref 14) \<and>
      get_v demo_realm h2 (Ref 14) ''Boom'' = Inr (Ref 16)) \<and>
   isClass demo_realm twice (Ref 8) = Inr (Bool True) \<and> to_boolean (Bool True) \<and>
   get_v demo_realm twice (Ref 8) ''toString'' = Inr (Ref 2) \<and>
   data_key demo_realm twice (Ref 8) ''toString'' \<and>
   class_shape twice 8 9 \<and> data_key demo_realm twice (Ref 9) ''op'' \<and>
   get_v demo_realm twice (Ref 9) ''op'' = Inr (Ref 10) \<and> fn_of twice (Ref 10) \<noteq> None \<and>
   data_key demo_realm twice (Ref 10) ''Boom'' \<and>
   for_in_keys demo_realm twice (Ref 12) = [''op''] \<and>
   data_key demo_realm twice (Ref 12) ''op'' \<and>
   get_v demo_realm twice (Ref 12) ''op'' = Inr (Ref 11) \<and>
   for_in_keys demo_realm twice (Ref 11) = [''Boom''] \<and>
   data_key demo_realm twice (Ref 11) ''Boom'' \<and>
   get_v demo_realm twice (Ref 11) ''Boom'' = Inr (Ref 6) \<and>
   withErrors demo_realm twice (Ref 8) (Ref 12) = Inr (twice_op, Ref 8) \<and>
   for_in_keys demo_realm twice_op (Ref 20) = [''op''] \<and>
   data_key demo_realm twice_op (Ref 20) ''op'' \<and>
   get_v demo_realm twice_op (Ref 20) ''op'' = Inr (Ref 19) \<and>
   for_in_keys demo_realm twice_op (Ref 19) = [''Boom''] \<and>
   data_key demo_realm twice_op (Ref 19) ''Boom'' \<and>
   get_v demo_realm twice_op (Ref 19) ''Boom'' = Inr (Ref 16) \<and>
   get_v demo_realm twice_op (Ref 10) ''Boom'' = Inr (Ref 6) \<and>
   (\<exists>g2. withErrors demo_realm twice_op (Ref 8) (Ref 20) = Inr (g2, Ref 8) \<and>
      get_v demo_realm g2 (Ref 9) ''op'' = Inr (Ref 10) \<and>
      get_v demo_realm g2 (Ref 10) ''Boom'' = Inr (Ref 16))"
proof -
  have K: "''Boom'' \<noteq> ''toString''" by simp
  have a1: "isClass demo_realm twice (Ref 14) = Inr (Bool False)" by code_simp
  have a2: "\<not> to_boolean (Bool False)" by (simp add: to_boolean_def)
  have ts: "get_v demo_realm twice (Ref 14) ''toString'' = Inr (Ref 2)"
      "get_v demo_realm twice (Ref 8) ''toString'' = Inr (Ref 2)"
    by code_simp+
  have tb: "map_option behaviour (fn_of twice (Ref 2)) = Some FunctionPrototypeToString"
    by code_simp
  then obtain fc where fc: "fn_of twice (Ref 2) = Some fc" "behaviour fc = FunctionPrototypeToString"
    by auto
  have td: "data_key demo_realm twice (Ref 14) ''toString''"
      "data_key demo_realm twice (Ref 8) ''toString''"
    by code_simp+
  have ad: "data_key demo_realm twice (Ref 14) ''Boom''" by code_simp
  have a3: "own_prop demo_realm twice (Ref 11) ''Boom'' = Some (new_prop (Ref 6))" by code_simp
  have a4: "enumerable (new_prop (Ref 6))" "enumerable (new_prop (Ref 16))"
      "is_data (new_prop (Ref 6))" "is_data (new_prop (Ref 16))"
    by (simp_all add: new_prop_def)
  have k1: "own_keys demo_realm twice (Ref 11) = [''Boom'']" by code_simp
  have a5: "\<forall>k. own_enumerable demo_realm twice (Ref 11) k \<longrightarrow> k = ''Boom''"
    using own_enumerable_key [of demo_realm twice "Ref 11"] by (auto simp: k1)
  have a6: "withErrors demo_realm twice (Ref 14) (Ref 11) = Inr (twice_f, Ref 14)" by code_simp
  have a7: "own_prop demo_realm twice_f (Ref 19) ''Boom'' = Some (new_prop (Ref 16))" by code_simp
  have k2: "own_keys demo_realm twice_f (Ref 19) = [''Boom'']" by code_simp
  have a8: "\<forall>k. own_enumerable demo_realm twice_f (Ref 19) k \<longrightarrow> k = ''Boom''"
    using own_enumerable_key [of demo_realm twice_f "Ref 19"] by (auto simp: k2)
  have b1: "isClass demo_realm twice (Ref 8) = Inr (Bool True)" by code_simp
  have b2: "to_boolean (Bool True)" by (simp add: to_boolean_def)
  have b3: "class_shape twice 8 9" by code_simp
  have bd: "data_key demo_realm twice (Ref 9) ''op''"
      "data_key demo_realm twice (Ref 10) ''Boom''"
      "data_key demo_realm twice (Ref 12) ''op''"
      "data_key demo_realm twice (Ref 11) ''Boom''"
      "data_key demo_realm twice_op (Ref 20) ''op''"
      "data_key demo_realm twice_op (Ref 19) ''Boom''"
    by code_simp+
  have b4: "get_v demo_realm twice (Ref 9) ''op'' = Inr (Ref 10)" by code_simp
  have b5: "fn_of twice (Ref 10) \<noteq> None" by code_simp
  have b6: "for_in_keys demo_realm twice (Ref 12) = [''op'']" by code_simp
  have b7: "get_v demo_realm twice (Ref 12) ''op'' = Inr (Ref 11)" by code_simp
  have b8: "for_in_keys demo_realm twice (Ref 11) = [''Boom'']" by code_simp
  have b9: "get_v demo_realm twice (Ref 11) ''Boom'' = Inr (Ref 6)" by code_simp
  have b10: "withErrors demo_realm twice (Ref 8) (Ref 12) = Inr (twice_op, Ref 8)" by code_simp
  have b11: "for_in_keys demo_realm twice_op (Ref 20) = [''op'']" by code_simp
  have b12: "get_v demo_realm twice_op (Ref 20) ''op'' = Inr (Ref 19)" by code_simp
  have b13: "for_in_keys demo_realm twice_op (Ref 19) = [''Boom'']" by code_simp
  have b14: "get_v demo_realm twice_op (Ref 19) ''Boom'' = Inr (Ref 16)" by code_simp
  note lww = last_write_wins [OF K, of demo_realm]
  have c1: "get_v demo_realm twice_f (Ref 14) ''Boom'' = Inr (Ref 6) \<and>
      (\<exists>h2. withErrors demo_realm twice_f (Ref 14) (Ref 19) = Inr (h2, Ref 14) \<and>
         get_v demo_realm h2 (Ref 14) ''Boom'' = Inr (Ref 16))"
    using lww [THEN conjunct1, of twice 14 "Bool False" "Ref 2" fc "Ref 11" "new_prop (Ref 6)"
        twice_f "Ref 14" "Ref 19" "new_prop (Ref 16)"]
      a1 a2 ts(1) fc td(1) ad a3 a4 a5 a6 a7 a8
    by (simp add: new_prop_def)
  have c2: "get_v demo_realm twice_op (Ref 10) ''Boom'' = Inr (Ref 6) \<and>
      (\<exists>g2. withErrors demo_realm twice_op (Ref 8) (Ref 20) = Inr (g2, Ref 8) \<and>
         get_v demo_realm g2 (Ref 9) ''op'' = Inr (Ref 10) \<and>
         get_v demo_realm g2 (Ref 10) ''Boom'' = Inr (Ref 16))"
    using lww [THEN conjunct2, of twice 8 "Bool True" "Ref 2" fc 9 "''op''" 10 "Ref 12" "Ref 11"
        "Ref 6" twice_op "Ref 8" "Ref 20" "Ref 19" "Ref 16"]
      b1 b2 ts(2) fc td(2) b3 bd b4 b5 b6 b7 b8 b9 b10 b11 b12 b13 b14
    by simp
  from K a1 a2 ts tb td ad a3 a4 k1 a6 a7 k2 b1 b2 b3 bd b4 b5 b6 b7 b8 b9 b10 b11 b12 b13 b14 c1 c2
  show ?thesis by (intro conjI) (elim conjE, assumption)+
qed

text \<open>
  C7 as stated fails for the slot name \<open>toString\<close>: after \<open>withErrors(f, {toString: Boom})\<close>
  the discriminator of the second call invokes \<open>f.toString\<close>, now the class \<open>Boom\<close>, without
  \<open>new\<close>; the second call raises \<open>TypeError\<close> and \<open>f.toString\<close> stays \<open>Boom\<close>.
\<close>

theorem toString_slot_counterexample:
  "isClass demo_realm twice (Ref 14) = Inr (Bool False) \<and>
   ebind (withErrors demo_realm twice (Ref 14) (Ref 15)) (\<lambda>(h1, v).
     get_v demo_realm h1 (Ref 14) ''toString'') = Inr (Ref 6) \<and>
   ebind (withErrors demo_realm twice (Ref 14) (Ref 15)) (\<lambda>(h1, v).
     withErrors demo_realm h1 (Ref 14) (Ref 18)) = Inl TypeError"
  by code_simp



text \<open>
  C1, amended. Let the target be an ordinary object that is no function, or a function whose
  \<open>toString\<close> is the built-in \<open>Function.prototype.toString\<close>, read from a data property; the
  discriminator completes on it. With a config that is \<open>null\<close> or \<open>undefined\<close> the call
  completes and changes nothing. In callable mode the call completes when the own enumerable properties of the
  config are data properties and each of their keys can be written on the target. In
  class mode, for a class of the usual shape and a config made of ordinary objects and
  data properties, the call completes when every slot can be written on its method; a key
  that names no method is skipped. In all these cases the call returns the target.
\<close>

theorem completes_without_exception:
  assumes "isClass rl h (Ref a) = Inr cv"
    and "typeof h (Ref a) = ''function'' \<longrightarrow> builtin_toString rl h (Ref a)"
  shows "(config = Undefined \<or> config = Null \<longrightarrow>
            withErrors rl h (Ref a) config = Inr (h, Ref a)) \<and>
         (\<not> to_boolean cv \<and>
          (\<forall>k p. own_prop rl h config k = Some p \<longrightarrow> enumerable p \<longrightarrow> is_data p) \<and>
          (\<forall>k. own_enumerable rl h config k \<longrightarrow> can_set h a k) \<longrightarrow>
            (\<exists>h'. withErrors rl h (Ref a) config = Inr (h', Ref a))) \<and>
         (to_boolean cv \<and> class_shape h a p \<and> plain_value rl h config \<and>
          (\<forall>k\<in>set (for_in_keys rl h config).
             data_key rl h (Ref p) k \<and> data_key rl h config k \<and>
             (\<forall>t. get_v rl h (Ref p) k = Inr (Ref t) \<and> fn_of h (Ref t) \<noteq> None \<longrightarrow>
               (\<exists>e. get_v rl h config k = Inr e \<and> plain_value rl h e \<and>
                    (\<forall>s\<in>set (for_in_keys rl h e). data_key rl h e s \<and> can_set h t s)))) \<longrightarrow>
            (\<exists>h'. withErrors rl h (Ref a) config = Inr (h', Ref a)))"
proof (intro conjI impI)
  assume "config = Undefined \<or> config = Null"
  then show "withErrors rl h (Ref a) config = Inr (h, Ref a)"
    using assms(1) by (cases "to_boolean cv") (auto simp: class_mode callable_mode)
next
  assume c: "\<not> to_boolean cv \<and>
      (\<forall>k p. own_prop rl h config k = Some p \<longrightarrow> enumerable p \<longrightarrow> is_data p) \<and>
      (\<forall>k. own_enumerable rl h config k \<longrightarrow> can_set h a k)"
  then have mode: "\<not> to_boolean cv" by simp
  from c have sd: "\<forall>k\<in>set (own_keys rl h config). \<forall>p. own_prop rl h config k = Some p \<longrightarrow>
      enumerable p \<longrightarrow> is_data p"
    by simp
  from c have tk: "\<forall>k\<in>set (own_keys rl h config). own_enumerable rl h config k \<longrightarrow>
      data_key rl h (Ref a) k"
    by (simp add: can_set_data_key)
  from c have "\<forall>k\<in>set (own_keys rl h config). own_enumerable rl h config k \<longrightarrow> can_set h a k"
    by simp
  with assign_props_completes [OF sd tk]
  have "\<exists>h'. assign_props rl h a config (own_keys rl h config) = Inr h'" by simp
  then show "\<exists>h'. withErrors rl h (Ref a) config = Inr (h', Ref a)"
    by (auto simp: callable_mode [OF assms(1) mode])
next
  assume c: "to_boolean cv \<and> class_shape h a p \<and> plain_value rl h config \<and>
          (\<forall>k\<in>set (for_in_keys rl h config).
             data_key rl h (Ref p) k \<and> data_key rl h config k \<and>
             (\<forall>t. get_v rl h (Ref p) k = Inr (Ref t) \<and> fn_of h (Ref t) \<noteq> None \<longrightarrow>
               (\<exists>e. get_v rl h config k = Inr e \<and> plain_value rl h e \<and>
                    (\<forall>s\<in>set (for_in_keys rl h e). data_key rl h e s \<and> can_set h t s))))"
  then have "\<exists>h'. annotate_methods rl h (Ref a) config (for_in_keys rl h config) = Inr h'"
    by (intro annotate_methods_completes [where p = p]) (elim conjE, assumption)+
  with c show "\<exists>h'. withErrors rl h (Ref a) config = Inr (h', Ref a)"
    by (auto simp: class_mode [OF assms(1)])
qed

theorem completes_without_exception_witness:
  "isClass demo_realm scenario (Ref 8) = Inr (Bool True) \<and> to_boolean (Bool True) \<and>
   builtin_toString demo_realm scenario (Ref 8) \<and>
   builtin_toString demo_realm scenario (Ref 14) \<and>
   class_shape scenario 8 9 \<and> plain_value demo_realm scenario (Ref 12) \<and>
   for_in_keys demo_realm scenario (Ref 12) = [''op''] \<and>
   data_key demo_realm scenario (Ref 9) ''op'' \<and>
   data_key demo_realm scenario (Ref 12) ''op'' \<and>
   get_v demo_realm scenario (Ref 9) ''op'' = Inr (Ref 10) \<and>
   get_v demo_realm scenario (Ref 12) ''op'' = Inr (Ref 11) \<and>
   plain_value demo_realm scenario (Ref 11) \<and>
   for_in_keys demo_realm scenario (Ref 11) = [''Boom''] \<and>
   data_key demo_realm scenario (Ref 11) ''Boom'' \<and>
   can_set scenario 10 ''Boom'' \<and>
   (\<exists>h'. withErrors demo_realm scenario (Ref 8) (Ref 12) = Inr (h', Ref 8)) \<and>
   withErrors demo_realm scenario (Ref 8) Null = Inr (scenario, Ref 8) \<and>
   isClass demo_realm scenario (Ref 14) = Inr (Bool False) \<and> \<not> to_boolean (Bool False) \<and>
   own_keys demo_realm scenario (Ref 11) = [''Boom''] \<and>
   own_prop demo_realm scenario (Ref 11) ''Boom'' = Some (new_prop (Ref 6)) \<and>
   is_data (new_prop (Ref 6)) \<and> can_set scenario 14 ''Boom'' \<and>
   (\<exists>h'. withErrors demo_realm scenario (Ref 14) (Ref 11) = Inr (h', Ref 14)) \<and>
   withErrors demo_realm scenario (Ref 14) Undefined = Inr (scenario, Ref 14)"
proof -
  have a: "isClass demo_realm scenario (Ref 8) = Inr (Bool True)" by code_simp
  have b: "to_boolean (Bool True)" "\<not> to_boolean (Bool False)" by (simp_all add: to_boolean_def)
  have c: "class_shape scenario 8 9" by code_simp
  have ts: "builtin_toString demo_realm scenario (Ref 8)"
      "builtin_toString demo_realm scenario (Ref 14)"
    by code_simp+
  have d: "plain_value demo_realm scenario (Ref 12)" "plain_value demo_realm scenario (Ref 11)"
    by code_simp+
  have k: "for_in_keys demo_realm scenario (Ref 12) = [''op'']"
      "for_in_keys demo_realm scenario (Ref 11) = [''Boom'']"
    by code_simp+
  have dk: "data_key demo_realm scenario (Ref 9) ''op''"
      "data_key demo_realm scenario (Ref 12) ''op''"
      "data_key demo_realm scenario (Ref 11) ''Boom''"
    by code_simp+
  have g: "get_v demo_realm scenario (Ref 9) ''op'' = Inr (Ref 10)"
      "get_v demo_realm scenario (Ref 12) ''op'' = Inr (Ref 11)"
    by code_simp+
  have s: "can_set scenario 10 ''Boom''" "can_set scenario 14 ''Boom''" by code_simp+
  have e: "\<forall>k\<in>set (for_in_keys demo_realm scenario (Ref 12)).
      data_key demo_realm scenario (Ref 9) k \<and> data_key demo_realm scenario (Ref 12) k \<and>
      (\<forall>t. get_v demo_realm scenario (Ref 9) k = Inr (Ref t) \<and> fn_of scenario (Ref t) \<noteq> None \<longrightarrow>
        (\<exists>e. get_v demo_realm scenario (Ref 12) k = Inr e \<and> plain_value demo_realm scenario e \<and>
             (\<forall>s\<in>set (for_in_keys demo_realm scenario e).
                data_key demo_realm scenario e s \<and> can_set scenario t s)))"
    using d(2) s(1) dk by (simp add: k g)
  have f: "isClass demo_realm scenario (Ref 14) = Inr (Bool False)" by code_simp
  have ok: "own_keys demo_realm scenario (Ref 11) = [''Boom'']" by code_simp
  have o: "own_prop demo_realm scenario (Ref 11) ''Boom'' = Some (new_prop (Ref 6))" by code_simp
  have od: "is_data (new_prop (Ref 6))" by (simp add: new_prop_def)
  have sd: "\<forall>k p. own_prop demo_realm scenario (Ref 11) k = Some p \<longrightarrow> enumerable p \<longrightarrow> is_data p"
    using own_prop_key [of demo_realm scenario "Ref 11"] o od by (auto simp: ok)
  have i: "\<forall>k. own_enumerable demo_realm scenario (Ref 11) k \<longrightarrow> can_set scenario 14 k"
    using own_enumerable_key [of demo_realm scenario "Ref 11"] s(2) by (auto simp: ok)
  note cls = completes_without_exception [OF a impI [OF ts(1)], where p = 9]
  note fnc = completes_without_exception [OF f impI [OF ts(2)], where p = 9]
  from cls [of "Ref 12"] b c d e
  have r1: "\<exists>h'. withErrors demo_realm scenario (Ref 8) (Ref 12) = Inr (h', Ref 8)" by blast
  from cls [of Null] have r2: "withErrors demo_realm scenario (Ref 8) Null = Inr (scenario, Ref 8)"
    by blast
  from fnc [of "Ref 11"] b sd i
  have r3: "\<exists>h'. withErrors demo_realm scenario (Ref 14) (Ref 11) = Inr (h', Ref 14)" by blast
  from fnc [of Undefined]
  have r4: "withErrors demo_realm scenario (Ref 14) Undefined = Inr (scenario, Ref 14)" by blast
  from a b ts c d k dk g s ok o od r1 r2 f r3 r4 show ?thesis by (intro conjI) assumption+
qed

text \<open>
  C1 as stated fails for a target that is no function: \<open>withErrors(null, { Boom })\<close> takes
  the callable branch, where \<open>Object.assign\<close> raises \<open>TypeError\<close> on a \<open>null\<close> target.
\<close>

theorem null_target_counterexample:
  "typeof scenario Null \<noteq> ''function'' \<and>
   withErrors demo_realm scenario Null (Ref 11) = Inl TypeError"
  by code_simp

end
